theory Spec2Isabelle
  imports Complex_Main "HOL-Library.AList" "HOL-Library.Char_ord" "HOL-Library.List_Lexorder"
begin

section \<open>Python strings and POSIX path helpers\<close>

text \<open>
  Python \<open>str\<close> values are modelled as \<open>string\<close>, one \<open>char\<close> per code point; the
  model covers code points below 256. The helpers below are the standard-library operations
  that \<open>bfs_v2.py\<close> calls on paths: \<open>str.replace\<close>, \<open>str.split\<close>, \<open>str.join\<close>,
  \<open>str.strip\<close>, \<open>str.lstrip\<close>, \<open>str.lower\<close>, and \<open>os.path.dirname\<close>,
  \<open>os.path.basename\<close>, \<open>os.path.splitext\<close> in their \<open>posixpath\<close> reading.
\<close>

definition slash :: char where
  "slash = CHR ''/''"

definition backslash :: char where
  "backslash = CHR 0x5C"

definition dot :: char where
  "dot = CHR ''.''"

text \<open>\<open>s.replace("\\", "/")\<close>\<close>

definition replace_backslash :: "string \<Rightarrow> string" where
  "replace_backslash s = map (\<lambda>c. if c = backslash then slash else c) s"

text \<open>\<open>s.split(sep)\<close> for a one-character separator: never returns the empty list.\<close>

fun py_split :: "char \<Rightarrow> string \<Rightarrow> string list" where
  "py_split sep [] = [[]]"
| "py_split sep (c # cs) =
     (if c = sep then [] # py_split sep cs
      else (case py_split sep cs of
              [] \<Rightarrow> [[c]]
            | w # ws \<Rightarrow> (c # w) # ws))"

text \<open>\<open>"/".join(parts)\<close>\<close>

fun py_join :: "string list \<Rightarrow> string" where
  "py_join [] = []"
| "py_join [p] = p"
| "py_join (p # q # ps) = p @ slash # py_join (q # ps)"

text \<open>\<open>str.isspace\<close> on one code point below 256.\<close>

definition py_isspace :: "char \<Rightarrow> bool" where
  "py_isspace c =
     (let n = (of_char c :: nat)
      in (9 \<le> n \<and> n \<le> 13) \<or> (28 \<le> n \<and> n \<le> 32) \<or> n = 133 \<or> n = 160)"

definition py_strip :: "string \<Rightarrow> string" where
  "py_strip s = rev (dropWhile py_isspace (rev (dropWhile py_isspace s)))"

text \<open>\<open>s.lstrip("/")\<close>\<close>

definition lstrip_slash :: "string \<Rightarrow> string" where
  "lstrip_slash s = dropWhile (\<lambda>c. c = slash) s"

text \<open>\<open>s.rstrip("/")\<close>\<close>

definition rstrip_slash :: "string \<Rightarrow> string" where
  "rstrip_slash s = rev (dropWhile (\<lambda>c. c = slash) (rev s))"

text \<open>\<open>str.lower\<close> on code points below 256: A-Z and the Latin-1 capitals move up by 32.\<close>

definition py_lower_char :: "char \<Rightarrow> char" where
  "py_lower_char c =
     (let n = (of_char c :: nat)
      in if (65 \<le> n \<and> n \<le> 90) \<or> (192 \<le> n \<and> n \<le> 222 \<and> n \<noteq> 215)
         then char_of (n + 32) else c)"

definition py_lower :: "string \<Rightarrow> string" where
  "py_lower s = map py_lower_char s"

text \<open>
  The part of \<open>p\<close> after its last \<open>sep\<close> (all of \<open>p\<close> when there is none), and the part
  up to and including the last \<open>sep\<close>: \<open>p[i:]\<close> and \<open>p[:i]\<close> for \<open>i = p.rfind(sep) + 1\<close>.
\<close>

definition after_last :: "char \<Rightarrow> string \<Rightarrow> string" where
  "after_last sep p = rev (takeWhile (\<lambda>c. c \<noteq> sep) (rev p))"

definition upto_last :: "char \<Rightarrow> string \<Rightarrow> string" where
  "upto_last sep p = rev (dropWhile (\<lambda>c. c \<noteq> sep) (rev p))"

text \<open>\<open>posixpath.basename\<close>\<close>

definition basename :: "string \<Rightarrow> string" where
  "basename p = after_last slash p"

text \<open>
  \<open>posixpath.dirname\<close>: the head up to the last slash, with trailing slashes removed
  unless the head consists of slashes only.
\<close>

definition dirname :: "string \<Rightarrow> string" where
  "dirname p =
     (let head = upto_last slash p
      in if head \<noteq> [] \<and> head \<noteq> replicate (length head) slash
         then rstrip_slash head else head)"

text \<open>
  \<open>posixpath.splitext(p)[1]\<close>: the suffix from the last dot of the last path component,
  empty when there is no dot there or when only dots precede it in the component.
\<close>

definition splitext_ext :: "string \<Rightarrow> string" where
  "splitext_ext p =
     (let comp = after_last slash p
      in if dot \<in> set comp
         then (let stem = butlast (upto_last dot comp)
               in if \<exists>c \<in> set stem. c \<noteq> dot then dot # after_last dot comp else [])
         else [])"

section \<open>Destination paths\<close>

text \<open>\<open>top_level_folder\<close> (bfs_v2.py, FIX #5).\<close>

definition top_level_folder :: "string \<Rightarrow> string" where
  "top_level_folder source_path =
     (let parts = py_split slash (replace_backslash source_path)
      in if length parts > 1 then parts ! 0 else [])"

text \<open>\<open>_join_rel\<close>: blank parts are dropped, the others stripped and normalised.\<close>

definition join_rel :: "string list \<Rightarrow> string" where
  "join_rel parts =
     py_join (map (\<lambda>p. replace_backslash (py_strip p))
                  (filter (\<lambda>p. p \<noteq> [] \<and> py_strip p \<noteq> []) parts))"

definition build_dest_rel :: "string \<Rightarrow> string \<Rightarrow> string \<Rightarrow> string" where
  "build_dest_rel category top_folder tail =
     (if category = ''practice'' then join_rel [''practice'', top_folder, tail]
      else if category = ''support'' then join_rel [''support'', top_folder, tail]
      else if category = ''study'' then
        (if top_folder = ''lecture'' then join_rel [''study'', ''lecture'', tail]
         else join_rel [''study'', ''lecture'', top_folder, tail])
      else join_rel [top_folder, tail])"

text \<open>
  The tail of a source path as both \<open>_process_folder\<close> and \<open>_process_file\<close> compute it:
  \<open>tail = source_path; if top: tail = source_path[len(top):].lstrip("/")\<close>.
\<close>

definition tail_of :: "string \<Rightarrow> string \<Rightarrow> string" where
  "tail_of topf source_path =
     (if topf \<noteq> [] then lstrip_slash (drop (length topf) source_path) else source_path)"

text \<open>The first path segment of a path, in the words of the specification's glossary.\<close>

definition first_segment :: "string \<Rightarrow> string" where
  "first_segment p = takeWhile (\<lambda>c. c \<noteq> slash) p"

section \<open>Data model\<close>

text \<open>\<open>Category\<close> (classify_v2.py) and the string each member carries as its value.\<close>

datatype Category = STUDY | PRACTICE | SUPPORT | SKIP

fun category_value :: "Category \<Rightarrow> string" where
  "category_value STUDY = ''study''"
| "category_value PRACTICE = ''practice''"
| "category_value SUPPORT = ''support''"
| "category_value SKIP = ''skip''"

record FileMeta =
  source_path :: string
  folder_path :: string
  file_name :: string
  description :: "string option"

text \<open>
  \<open>FolderNode\<close>: \<open>children\<close> is a Python dict keyed by folder name; dicts keep insertion
  order, so every dict of the program is an association list with distinct keys, read with
  \<open>map_of\<close> and written with \<open>AList.update\<close> (in place for a present key, at the end for
  a new one).
\<close>

datatype FolderNode =
  FolderNode (path: string) (name: string) (files: "FileMeta list")
             (children: "(string \<times> FolderNode) list")

text \<open>One row of the file index; only \<open>description\<close> is read by the traversal.\<close>

record FileIndexEntry =
  entry_uuid :: string
  entry_file_name :: string
  entry_description :: string

record FolderStats =
  total_file_count :: nat
  immediate_file_count :: nat
  subfolder_count :: nat
  subfolder_names :: "string list"
  extension_counts :: "(string \<times> nat) list"
  is_homogeneous :: bool
  primary_extensions :: "string list"

text \<open>
  \<open>ClassificationResult\<close>, the oracle's answer. \<open>confidence\<close> is a Python float that is
  only ever compared with the threshold; it is modelled as a real number.
\<close>

record ClassificationResult =
  category :: Category
  confidence :: real
  reason :: string
  is_mixed :: bool
  folder_description :: string

definition is_confident :: "ClassificationResult \<Rightarrow> real \<Rightarrow> bool" where
  "is_confident r threshold = (confidence r \<ge> threshold \<and> \<not> is_mixed r)"

text \<open>
  \<open>Classification\<close> and \<open>FileMapping\<close> (bfs_v2.py). Fields that share a name with a field
  of \<open>ClassificationResult\<close> carry the prefix \<open>c_\<close> or \<open>m_\<close>.
\<close>

record Classification =
  c_path :: string
  c_category :: Category
  c_confidence :: real
  c_reason :: string
  classified_at_level :: string
  parent_folder :: "string option"
  ancestor_descriptions :: "string list"

record FileMapping =
  source_rel :: string
  dest_rel :: string
  top_folder :: string
  m_category :: string
  m_reason :: string

section \<open>Tree building\<close>

text \<open>
  The inner loop of \<open>build_tree\<close>: walk \<open>parts\<close> down from \<open>node\<close>, creating each missing
  child with the path accumulated so far, and append the file to the node reached. The
  Python code mutates the nodes in place; the model rebuilds the spine.
\<close>

fun attach_file :: "FolderNode \<Rightarrow> string list \<Rightarrow> string list \<Rightarrow> FileMeta \<Rightarrow> FolderNode" where
  "attach_file node agg [] fm =
     FolderNode (path node) (name node) (files node @ [fm]) (children node)"
| "attach_file node agg (p # ps) fm =
     (let agg' = agg @ [p];
          ppath = py_join agg';
          child = (case map_of (children node) p of
                     None \<Rightarrow> FolderNode ppath p [] []
                   | Some c \<Rightarrow> c)
      in FolderNode (path node) (name node) (files node)
           (AList.update p (attach_file child agg' ps fm) (children node)))"

definition folder_of :: "string \<Rightarrow> string" where
  "folder_of rel_path =
     (let d = replace_backslash (dirname rel_path) in if d = [] then ''.'' else d)"

definition build_tree_step ::
  "(string \<times> FileIndexEntry) list \<Rightarrow> FolderNode \<Rightarrow> string \<Rightarrow> FolderNode" where
  "build_tree_step file_index root_node rel_path =
     (let folder = folder_of rel_path;
          fname = basename rel_path;
          parts = (if folder \<noteq> ''.'' then py_split slash folder else []);
          desc = (case map_of file_index fname of
                    None \<Rightarrow> None
                  | Some entry \<Rightarrow> Some (entry_description entry))
      in attach_file root_node [] parts
           \<lparr>source_path = rel_path, folder_path = folder, file_name = fname,
            description = desc\<rparr>)"

definition build_tree :: "string list \<Rightarrow> (string \<times> FileIndexEntry) list \<Rightarrow> FolderNode" where
  "build_tree files_on_disk file_index =
     foldl (build_tree_step file_index) (FolderNode ''.'' ''root'' [] []) files_on_disk"

section \<open>Subtree files and folder statistics\<close>

fun node_size :: "FolderNode \<Rightarrow> nat" where
  "node_size (FolderNode p n fs cs) = Suc (length fs + sum_list (map (\<lambda>kc. node_size (snd kc)) cs))"

text \<open>\<open>collect_all_files\<close> (classify_v2.py): a queue of folders, files gathered level by level.\<close>

function collect_loop :: "FolderNode list \<Rightarrow> FileMeta list \<Rightarrow> FileMeta list" where
  "collect_loop [] acc = acc"
| "collect_loop (cur # queue) acc =
     collect_loop (queue @ map snd (children cur)) (acc @ files cur)"
  by pat_completeness auto

termination collect_loop
proof (relation "measure (\<lambda>(q, acc). sum_list (map node_size q))")
  show "wf (measure (\<lambda>(q, acc). sum_list (map node_size q)))" by simp
next
  fix cur :: FolderNode and queue :: "FolderNode list" and acc :: "FileMeta list"
  show "((queue @ map snd (children cur), acc @ files cur), cur # queue, acc)
         \<in> measure (\<lambda>(q, acc). sum_list (map node_size q))"
    by (cases cur) (simp add: comp_def)
qed

definition collect_all_files :: "FolderNode \<Rightarrow> FileMeta list" where
  "collect_all_files node = collect_loop [node] []"

text \<open>
  The extension key of a file in \<open>compute_folder_stats\<close>:
  \<open>os.path.splitext(f.file_name)[1].lower() or "(no ext)"\<close>.
\<close>

definition ext_key :: "FileMeta \<Rightarrow> string" where
  "ext_key f =
     (let ext = py_lower (splitext_ext (file_name f)) in if ext = [] then ''(no ext)'' else ext)"

definition count_ext :: "(string \<times> nat) list \<Rightarrow> FileMeta \<Rightarrow> (string \<times> nat) list" where
  "count_ext ext_counts f =
     AList.update (ext_key f)
       ((case map_of ext_counts (ext_key f) of None \<Rightarrow> 0 | Some c \<Rightarrow> c) + 1) ext_counts"

definition metadata_exts :: "string set" where
  "metadata_exts = {''.yaml'', ''.yml'', ''.json'', ''.md'', ''.txt'', ''.toml'', ''.ini''}"

definition compute_folder_stats :: "FolderNode \<Rightarrow> FolderStats" where
  "compute_folder_stats node =
     (let all_files = collect_all_files node;
          ext_counts = foldl count_ext [] all_files;
          sorted_exts = sort_key (\<lambda>x. - int (snd x)) ext_counts;
          primary = map fst (take 3 sorted_exts);
          content_exts = {e \<in> set (map fst ext_counts). e \<notin> metadata_exts}
      in \<lparr>total_file_count = length all_files,
          immediate_file_count = length (files node),
          subfolder_count = length (children node),
          subfolder_names = sort (map fst (children node)),
          extension_counts = ext_counts,
          is_homogeneous = (card content_exts \<le> 1),
          primary_extensions = primary\<rparr>)"

text \<open>
  The homogeneity test in the words of the specification: metadata extensions are left out
  of the test unless they are the only content present.
\<close>

definition spec_is_homogeneous :: "string set \<Rightarrow> bool" where
  "spec_is_homogeneous exts =
     (if exts - metadata_exts = {} then card exts \<le> 1 else card (exts - metadata_exts) \<le> 1)"

section \<open>The breadth-first traversal\<close>

text \<open>
  The collaborators. \<open>LLMClassifier.classify_folder\<close> and \<open>classify_file\<close> call a language
  model and re-raise whatever it raises; the methods of \<open>CourseDB\<close> run SQL on a connection
  and raise when it fails. Each is a function that returns the value or the exception.
  The file index is fixed for a run, so the concatenated descriptions that
  \<open>_process_folder\<close> builds from the subtree's files and the index are a function of the
  classifier's other arguments and are not passed separately.
\<close>

datatype py_error = ClassifierError string | DBError string

type_synonym file_index = "(string \<times> FileIndexEntry) list"

record LLMClassifier =
  classify_folder ::
    "FolderNode \<Rightarrow> file_index \<Rightarrow> FolderStats \<Rightarrow> string list \<Rightarrow> py_error + ClassificationResult"
  classify_file ::
    "FileMeta \<Rightarrow> file_index \<Rightarrow> string list \<Rightarrow> py_error + ClassificationResult"

record CourseDB =
  get_uuids_for_files :: "string list \<Rightarrow> py_error + string list"
  update_folder_description_bulk :: "string list \<Rightarrow> string \<Rightarrow> py_error + nat"

record BFSTraverser =
  db :: CourseDB
  classifier :: LLMClassifier
  confidence_threshold :: real

definition MAX_ANCESTOR_DEPTH :: nat where
  "MAX_ANCESTOR_DEPTH = 10"

text \<open>An element of the task queue: \<open>Union[FolderNode, FileMeta]\<close>.\<close>

datatype item = Folder FolderNode | File FileMeta

fun item_key :: "item \<Rightarrow> string" where
  "item_key (File f) = source_path f"
| "item_key (Folder n) = path n"

text \<open>
  The local variables of \<open>_bfs_classify\<close>. The last four fields are instrumentation: the
  paths for which \<open>classify_folder\<close> and \<open>classify_file\<close> were called, in call order; the
  answer \<open>classify_file\<close> gave for each file path (as \<open>folder_decisions\<close> keeps the answers
  for folders); and, for each call of \<open>update_folder_description_bulk\<close>, the folder being
  processed and the arguments.
\<close>

record bfs_state =
  task_queue :: "item list"
  seen :: "string set"
  ancestor_desc_map :: "(string \<times> string list) list"
  classifications :: "(string \<times> Classification) list"
  folder_decisions :: "(string \<times> ClassificationResult) list"
  skipped_folders :: "string list"
  mappings :: "(string \<times> FileMapping) list"
  folder_calls :: "string list"
  file_calls :: "string list"
  file_decisions :: "(string \<times> ClassificationResult) list"
  propagations :: "(string \<times> string list \<times> string) list"

text \<open>\<open>d.get(k, [])\<close>\<close>

definition get_list :: "(string \<times> 'a list) list \<Rightarrow> string \<Rightarrow> 'a list" where
  "get_list d k = (case map_of d k of None \<Rightarrow> [] | Some v \<Rightarrow> v)"

text \<open>The descend branch of \<open>_process_folder\<close>.\<close>

definition descend :: "FolderNode \<Rightarrow> string list \<Rightarrow> bfs_state \<Rightarrow> bfs_state" where
  "descend node child_ancestors s =
     s\<lparr>ancestor_desc_map :=
          AList.update (path node) child_ancestors
            (foldl (\<lambda>m child. AList.update (path child) child_ancestors m)
               (ancestor_desc_map s) (map snd (children node))),
       task_queue := task_queue s @ map (\<lambda>kc. Folder (snd kc)) (children node) @ map File (files node)\<rparr>"

text \<open>FIX #2: the description is written to the store on confident assignment only.\<close>

definition propagate ::
  "BFSTraverser \<Rightarrow> FolderNode \<Rightarrow> ClassificationResult \<Rightarrow> FileMeta list \<Rightarrow> bfs_state
    \<Rightarrow> (py_error \<times> bfs_state) + bfs_state" where
  "propagate self node result folder_files s =
     (if folder_description result \<noteq> [] then
        (case get_uuids_for_files (db self) (map file_name folder_files) of
           Inl e \<Rightarrow> Inl (e, s)
         | Inr uuids \<Rightarrow>
             if uuids \<noteq> [] then
               (let s' = s\<lparr>propagations :=
                              propagations s @ [(path node, uuids, folder_description result)]\<rparr>
                in case update_folder_description_bulk (db self) uuids (folder_description result) of
                     Inl e \<Rightarrow> Inl (e, s')
                   | Inr n \<Rightarrow> Inr s')
             else Inr s)
      else Inr s)"

text \<open>The body of the loop over \<open>folder_files\<close> in the confident branch.\<close>

definition assign_file ::
  "FolderNode \<Rightarrow> ClassificationResult \<Rightarrow> string list \<Rightarrow> bfs_state \<Rightarrow> FileMeta \<Rightarrow> bfs_state" where
  "assign_file node result child_ancestors s f =
     (let topf = top_level_folder (source_path f);
          tail = tail_of topf (source_path f);
          dest = build_dest_rel (category_value (category result)) topf tail
      in s\<lparr>classifications :=
             AList.update (source_path f)
               \<lparr>c_path = source_path f, c_category = category result,
                c_confidence = confidence result,
                c_reason = ''Inherited from folder '' @ [CHR 0x27] @ path node @ [CHR 0x27]
                           @ '': '' @ reason result,
                classified_at_level = ''folder'', parent_folder = Some (path node),
                ancestor_descriptions = child_ancestors\<rparr>
               (classifications s),
           mappings :=
             AList.update (source_path f)
               \<lparr>source_rel = source_path f, dest_rel = dest, top_folder = topf,
                m_category = category_value (category result), m_reason = reason result\<rparr>
               (mappings s)\<rparr>)"

definition process_folder ::
  "BFSTraverser \<Rightarrow> FolderNode \<Rightarrow> file_index \<Rightarrow> bfs_state \<Rightarrow> (py_error \<times> bfs_state) + bfs_state" where
  "process_folder self node file_index s =
     (let my_ancestors = get_list (ancestor_desc_map s) (path node);
          folder_files = collect_all_files node;
          folder_stats = compute_folder_stats node;
          s1 = s\<lparr>folder_calls := folder_calls s @ [path node]\<rparr>
      in case classify_folder (classifier self) node file_index folder_stats my_ancestors of
           Inl e \<Rightarrow> Inl (e, s1)
         | Inr result \<Rightarrow>
            (let s2 = s1\<lparr>folder_decisions := AList.update (path node) result (folder_decisions s1)\<rparr>;
                 child_ancestors =
                   (if folder_description result \<noteq> [] \<and> length my_ancestors < MAX_ANCESTOR_DEPTH
                    then my_ancestors @ [folder_description result] else my_ancestors)
             in if category result = SKIP \<and> confidence result \<ge> confidence_threshold self then
                  Inr (s2\<lparr>skipped_folders := skipped_folders s2 @ [path node],
                          classifications :=
                            AList.update (path node)
                              \<lparr>c_path = path node, c_category = SKIP,
                               c_confidence = confidence result, c_reason = reason result,
                               classified_at_level = ''folder'', parent_folder = None,
                               ancestor_descriptions = my_ancestors\<rparr>
                              (classifications s2)\<rparr>)
                else
                  (let should_descend0 =
                         (\<not> is_confident result (confidence_threshold self) \<or> is_mixed result);
                       should_descend = (if category result = SKIP then True else should_descend0);
                       descent_note = (if should_descend then '' [descended]'' else []);
                       s3 = s2\<lparr>skipped_folders :=
                                 (if category result = SKIP then skipped_folders s2 @ [path node]
                                  else skipped_folders s2),
                               classifications :=
                                 AList.update (path node)
                                   \<lparr>c_path = path node, c_category = category result,
                                    c_confidence = confidence result,
                                    c_reason = reason result @ descent_note,
                                    classified_at_level = ''folder'', parent_folder = None,
                                    ancestor_descriptions = my_ancestors\<rparr>
                                   (classifications s2)\<rparr>
                   in if should_descend then Inr (descend node child_ancestors s3)
                      else
                        (case propagate self node result folder_files s3 of
                           Inl es \<Rightarrow> Inl es
                         | Inr s4 \<Rightarrow>
                             Inr (foldl (assign_file node result child_ancestors) s4 folder_files)))))"

definition process_file ::
  "BFSTraverser \<Rightarrow> FileMeta \<Rightarrow> file_index \<Rightarrow> bfs_state \<Rightarrow> (py_error \<times> bfs_state) + bfs_state" where
  "process_file self f file_index s =
     (let file_ancestors = get_list (ancestor_desc_map s) (folder_path f);
          s1 = s\<lparr>file_calls := file_calls s @ [source_path f]\<rparr>
      in case classify_file (classifier self) f file_index file_ancestors of
           Inl e \<Rightarrow> Inl (e, s1)
         | Inr result \<Rightarrow>
            (let s2 = s1\<lparr>file_decisions := AList.update (source_path f) result (file_decisions s1)\<rparr>
             in if category result = SKIP then Inr s2
                else
                  (let topf = top_level_folder (source_path f);
                       tail = tail_of topf (source_path f);
                       dest = build_dest_rel (category_value (category result)) topf tail
                   in Inr (s2\<lparr>classifications :=
                                AList.update (source_path f)
                                  \<lparr>c_path = source_path f, c_category = category result,
                                   c_confidence = confidence result, c_reason = reason result,
                                   classified_at_level = ''file'', parent_folder = None,
                                   ancestor_descriptions = file_ancestors\<rparr>
                                  (classifications s2),
                              mappings :=
                                AList.update (source_path f)
                                  \<lparr>source_rel = source_path f, dest_rel = dest, top_folder = topf,
                                   m_category = category_value (category result),
                                   m_reason = reason result\<rparr>
                                  (mappings s2)\<rparr>))))"

fun item_size :: "item \<Rightarrow> nat" where
  "item_size (File f) = 1"
| "item_size (Folder n) = node_size n"

definition queue_size :: "bfs_state \<Rightarrow> nat" where
  "queue_size s = sum_list (map item_size (task_queue s))"

text \<open>One step of the loop on a dequeued item whose key is new.\<close>

definition process_item ::
  "BFSTraverser \<Rightarrow> item \<Rightarrow> file_index \<Rightarrow> bfs_state \<Rightarrow> (py_error \<times> bfs_state) + bfs_state" where
  "process_item self it file_index s =
     (case it of
        Folder n \<Rightarrow> process_folder self n file_index s
      | File f \<Rightarrow> process_file self f file_index s)"

text \<open>
  The \<open>while task_queue\<close> loop of \<open>_bfs_classify\<close>. An exception raised by a collaborator
  ends the run: the result is \<open>Inl\<close> with the exception and the state reached.
\<close>

function bfs_loop ::
  "BFSTraverser \<Rightarrow> file_index \<Rightarrow> bfs_state \<Rightarrow> (py_error \<times> bfs_state) + bfs_state" where
  "bfs_loop self file_index s =
     (case task_queue s of
        [] \<Rightarrow> Inr s
      | it # rest \<Rightarrow>
          (let s1 = s\<lparr>task_queue := rest\<rparr> in
           if item_key it \<in> seen s1 then bfs_loop self file_index s1
           else
             (case process_item self it file_index (s1\<lparr>seen := insert (item_key it) (seen s1)\<rparr>) of
                Inl es \<Rightarrow> Inl es
              | Inr s2 \<Rightarrow> bfs_loop self file_index s2)))"
  by pat_completeness auto

text \<open>
  The state before the loop: the root's child folders, then the root's files, are queued;
  the root itself is never classified.
\<close>

definition initial_state :: "FolderNode \<Rightarrow> bfs_state" where
  "initial_state root_node =
     \<lparr>task_queue = map (\<lambda>kc. Folder (snd kc)) (children root_node) @ map File (files root_node),
      seen = {},
      ancestor_desc_map =
        foldl (\<lambda>m child. AList.update (path child) [] m) [] (map snd (children root_node)),
      classifications = [], folder_decisions = [], skipped_folders = [], mappings = [],
      folder_calls = [], file_calls = [], file_decisions = [], propagations = []\<rparr>"

definition bfs_run ::
  "BFSTraverser \<Rightarrow> FolderNode \<Rightarrow> file_index \<Rightarrow> (py_error \<times> bfs_state) + bfs_state" where
  "bfs_run self root_node file_index = bfs_loop self file_index (initial_state root_node)"

record TraversalResult =
  tr_classifications :: "(string \<times> Classification) list"
  tr_folder_decisions :: "(string \<times> ClassificationResult) list"
  tr_skipped_folders :: "string list"
  tr_mappings :: "(string \<times> FileMapping) list"
  files_classified_individually :: nat
  files_classified_via_folder :: nat

definition traversal_result :: "bfs_state \<Rightarrow> TraversalResult" where
  "traversal_result s =
     \<lparr>tr_classifications = classifications s,
      tr_folder_decisions = folder_decisions s,
      tr_skipped_folders = skipped_folders s,
      tr_mappings = mappings s,
      files_classified_individually =
        length (filter (\<lambda>c. classified_at_level c = ''file'') (map snd (classifications s))),
      files_classified_via_folder =
        length (filter (\<lambda>c. classified_at_level c = ''folder'' \<and> parent_folder c \<noteq> None)
                  (map snd (classifications s)))\<rparr>"

text \<open>\<open>_bfs_classify\<close>: an exception leaves the caller without a result.\<close>

definition bfs_classify ::
  "BFSTraverser \<Rightarrow> FolderNode \<Rightarrow> file_index \<Rightarrow> py_error + TraversalResult" where
  "bfs_classify self root_node file_index =
     (case bfs_run self root_node file_index of
        Inl es \<Rightarrow> Inl (fst es)
      | Inr s \<Rightarrow> Inr (traversal_result s))"

section \<open>Notions used in the statements\<close>

text \<open>
  A path segment that \<open>_join_rel\<close> leaves as it is: not empty, no white space at either end,
  no backslash.
\<close>

definition clean_segment :: "string \<Rightarrow> bool" where
  "clean_segment seg = (seg \<noteq> [] \<and> py_strip seg = seg \<and> backslash \<notin> set seg)"

text \<open>The mapping of a file as a function of its final category, the reason and its path.\<close>

definition mapping_of :: "Category \<Rightarrow> string \<Rightarrow> string \<Rightarrow> FileMapping" where
  "mapping_of c rsn sp =
     \<lparr>source_rel = sp,
      dest_rel = build_dest_rel (category_value c) (top_level_folder sp)
                   (tail_of (top_level_folder sp) sp),
      top_folder = top_level_folder sp,
      m_category = category_value c,
      m_reason = rsn\<rparr>"

text \<open>The answer of the classifier for a folder in a given state of the traversal.\<close>

abbreviation folder_answer :: "BFSTraverser \<Rightarrow> FolderNode \<Rightarrow> file_index \<Rightarrow> bfs_state \<Rightarrow> py_error + ClassificationResult" where
  "folder_answer self n fi s \<equiv>
     classify_folder (classifier self) n fi (compute_folder_stats n)
       (get_list (ancestor_desc_map s) (path n))"

text \<open>The ancestor descriptions handed to the children of a folder (bounded depth).\<close>

definition child_ancestors_of :: "ClassificationResult \<Rightarrow> string list \<Rightarrow> string list" where
  "child_ancestors_of r anc =
     (if folder_description r \<noteq> [] \<and> length anc < MAX_ANCESTOR_DEPTH
      then anc @ [folder_description r] else anc)"

text \<open>
  The record of a folder itself, with the note appended to the reason, and the record a
  file inherits from a confidently assigned folder.
\<close>

definition folder_record :: "FolderNode \<Rightarrow> ClassificationResult \<Rightarrow> string \<Rightarrow> string list \<Rightarrow> Classification" where
  "folder_record n r note anc =
     \<lparr>c_path = path n, c_category = category r, c_confidence = confidence r,
      c_reason = reason r @ note, classified_at_level = ''folder'', parent_folder = None,
      ancestor_descriptions = anc\<rparr>"

definition inherited_record ::
  "FolderNode \<Rightarrow> ClassificationResult \<Rightarrow> string list \<Rightarrow> string \<Rightarrow> Classification" where
  "inherited_record n r anc sp =
     \<lparr>c_path = sp, c_category = category r, c_confidence = confidence r,
      c_reason = ''Inherited from folder '' @ [CHR 0x27] @ path n @ [CHR 0x27]
                 @ '': '' @ reason r,
      classified_at_level = ''folder'', parent_folder = Some (path n),
      ancestor_descriptions = anc\<rparr>"

text \<open>All files of a subtree, folder by folder, depth first.\<close>

fun subtree_files :: "FolderNode \<Rightarrow> FileMeta list" where
  "subtree_files (FolderNode p n fs cs) = fs @ concat (map (\<lambda>kc. subtree_files (snd kc)) cs)"

text \<open>
  A folder below the root is well placed when its children are keyed by their names, one
  child per name, each child's path is the folder's path, a slash and the child's name,
  every file attached to the folder names the folder as its directory, and the same holds
  below. At the root the paths of the children are their names.
\<close>

fun well_placed :: "FolderNode \<Rightarrow> bool" where
  "well_placed (FolderNode p n fs cs) =
     (distinct (map fst cs)
      \<and> (\<forall>f \<in> set fs. folder_path f = p)
      \<and> (\<forall>kc \<in> set cs. name (snd kc) = fst kc \<and> path (snd kc) = p @ slash # fst kc
                        \<and> well_placed (snd kc)))"

definition well_rooted :: "FolderNode \<Rightarrow> bool" where
  "well_rooted t =
     (path t = ''.'' \<and> name t = ''root''
      \<and> distinct (map fst (children t))
      \<and> (\<forall>f \<in> set (files t). folder_path f = ''.'')
      \<and> (\<forall>kc \<in> set (children t). name (snd kc) = fst kc \<and> path (snd kc) = fst kc
                                 \<and> well_placed (snd kc)))"

text \<open>The record of a file that was classified on its own.\<close>

definition file_record :: "FileMeta \<Rightarrow> ClassificationResult \<Rightarrow> string list \<Rightarrow> Classification" where
  "file_record f r anc =
     \<lparr>c_path = source_path f, c_category = category r, c_confidence = confidence r,
      c_reason = reason r, classified_at_level = ''file'', parent_folder = None,
      ancestor_descriptions = anc\<rparr>"

text \<open>The state in which a run ended, with a result or with an exception.\<close>

definition outcome_state :: "(py_error \<times> bfs_state) + bfs_state \<Rightarrow> bfs_state" where
  "outcome_state res = (case res of Inl es \<Rightarrow> snd es | Inr s \<Rightarrow> s)"


text \<open>
  The nodes of a subtree as queue items, the folder first; the nodes an item stands for;
  the nodes still reachable from the queue; and the nodes below the root.
\<close>

fun subtree_items :: "FolderNode \<Rightarrow> item list" where
  "subtree_items (FolderNode p n fs cs) =
     Folder (FolderNode p n fs cs) # map File fs @ concat (map (\<lambda>kc. subtree_items (snd kc)) cs)"

fun item_items :: "item \<Rightarrow> item list" where
  "item_items (Folder n) = subtree_items n"
| "item_items (File f) = [File f]"

definition below :: "FolderNode \<Rightarrow> item list" where
  "below n = map File (files n) @ concat (map (\<lambda>kc. subtree_items (snd kc)) (children n))"

definition pending_items :: "bfs_state \<Rightarrow> item list" where
  "pending_items s = concat (map item_items (task_queue s))"

definition root_items :: "FolderNode \<Rightarrow> item list" where
  "root_items t = concat (map item_items (task_queue (initial_state t)))"

text \<open>
  The folders and files below the root have pairwise distinct paths, as the entries of a
  directory scan have.
\<close>

definition distinct_paths :: "FolderNode \<Rightarrow> bool" where
  "distinct_paths t = distinct (map item_key (root_items t))"

text \<open>The items a descended folder appends to the queue.\<close>

definition kids :: "FolderNode \<Rightarrow> item list" where
  "kids n = map (\<lambda>kc. Folder (snd kc)) (children n) @ map File (files n)"

text \<open>
  The frontier invariant: the pending nodes are nodes of the tree with pairwise distinct
  paths, none of them visited, classified or mapped; every recorded decision and every
  propagation call belongs to a visited path.
\<close>

definition frontier :: "FolderNode \<Rightarrow> bfs_state \<Rightarrow> bool" where
  "frontier t s =
     (distinct (map item_key (pending_items s))
      \<and> set (pending_items s) \<subseteq> set (root_items t)
      \<and> (\<forall>k \<in> item_key ` set (pending_items s).
            k \<notin> seen s \<and> k \<notin> fst ` set (classifications s) \<and> k \<notin> fst ` set (mappings s))
      \<and> fst ` set (folder_decisions s) \<subseteq> seen s
      \<and> fst ` set (file_decisions s) \<subseteq> seen s
      \<and> fst ` set (propagations s) \<subseteq> seen s)"

text \<open>
  A decision is a confident Skip; and a folder with such a decision is pruned in a state:
  its own record is the terminal Skip record, no propagation call was made for it, and no
  node below it was visited, is pending, or has a classification or a mapping.
\<close>

definition confident_skip :: "BFSTraverser \<Rightarrow> ClassificationResult \<Rightarrow> bool" where
  "confident_skip self r = (category r = SKIP \<and> confidence r \<ge> confidence_threshold self)"

definition pruned :: "FolderNode \<Rightarrow> ClassificationResult \<Rightarrow> bfs_state \<Rightarrow> bool" where
  "pruned X r s =
     ((\<exists>anc. map_of (classifications s) (path X) = Some (folder_record X r [] anc))
      \<and> path X \<notin> fst ` set (propagations s)
      \<and> (\<forall>k \<in> item_key ` set (below X).
            k \<notin> seen s \<and> k \<notin> item_key ` set (pending_items s)
            \<and> map_of (classifications s) k = None \<and> map_of (mappings s) k = None))"

definition pruned_ok :: "BFSTraverser \<Rightarrow> FolderNode \<Rightarrow> bfs_state \<Rightarrow> bool" where
  "pruned_ok self t s =
     (\<forall>X r. Folder X \<in> set (root_items t) \<longrightarrow> map_of (folder_decisions s) (path X) = Some r
             \<longrightarrow> confident_skip self r \<longrightarrow> pruned X r s)"

text \<open>The dicts of the state have one entry per key.\<close>

definition dicts_distinct :: "bfs_state \<Rightarrow> bool" where
  "dicts_distinct s =
     (distinct (map fst (classifications s)) \<and> distinct (map fst (mappings s)))"

text \<open>No file whose own decision was Skip has a classification or a mapping.\<close>

definition skipped_files_ok :: "bfs_state \<Rightarrow> bool" where
  "skipped_files_ok s =
     (\<forall>k r. map_of (file_decisions s) k = Some r \<longrightarrow> category r = SKIP \<longrightarrow>
        map_of (classifications s) k = None \<and> map_of (mappings s) k = None)"

text \<open>
  Every mapping is stored under its own source path, carries one of the three categories
  that are mapped, and belongs to a file of the tree; the pending nodes are nodes of the
  tree.
\<close>

definition mappings_wf :: "FolderNode \<Rightarrow> bfs_state \<Rightarrow> bool" where
  "mappings_wf t s =
     (set (pending_items s) \<subseteq> set (root_items t)
      \<and> (\<forall>k m. map_of (mappings s) k = Some m \<longrightarrow>
            source_rel m = k \<and> m_category m \<in> {''study'', ''practice'', ''support''}
            \<and> k \<in> source_path ` set (subtree_files t)))"

text \<open>
  Every mapped path has a terminal file classification (a record of its own or one
  inherited from a folder) with the mapping's category, which is not Skip.
\<close>

definition mapped_ok :: "bfs_state \<Rightarrow> bool" where
  "mapped_ok s =
     (\<forall>k m. map_of (mappings s) k = Some m \<longrightarrow>
        (\<exists>c. map_of (classifications s) k = Some c \<and> c_category c \<noteq> SKIP
             \<and> (classified_at_level c = ''file'' \<or> parent_folder c \<noteq> None)
             \<and> m_category m = category_value (c_category c)))"

text \<open>
  The paths of the folders on the way to a file, as \<open>build_tree\<close> names them; and a scan
  that lists every file once and lists no folder as a file.
\<close>

fun nonempty_prefixes :: "'a list \<Rightarrow> 'a list list" where
  "nonempty_prefixes [] = []"
| "nonempty_prefixes (x # xs) = [x] # map ((#) x) (nonempty_prefixes xs)"

definition folder_paths_of :: "string \<Rightarrow> string list" where
  "folder_paths_of rel_path =
     (if folder_of rel_path = ''.'' then []
      else map py_join (nonempty_prefixes (py_split slash (folder_of rel_path))))"

definition scan_ok :: "string list \<Rightarrow> bool" where
  "scan_ok files_on_disk =
     (distinct files_on_disk
      \<and> (\<forall>p \<in> set files_on_disk. \<forall>q \<in> set files_on_disk. p \<notin> set (folder_paths_of q)))"

text \<open>The paths of the folders strictly below a node; and child names without a slash.\<close>

fun folder_paths :: "FolderNode \<Rightarrow> string list" where
  "folder_paths (FolderNode p n fs cs) =
     concat (map (\<lambda>kc. path (snd kc) # folder_paths (snd kc)) cs)"

fun plain_names :: "FolderNode \<Rightarrow> bool" where
  "plain_names (FolderNode p n fs cs) =
     (\<forall>kc \<in> set cs. slash \<notin> set (fst kc) \<and> plain_names (snd kc))"

text \<open>A path that extends another by whole segments.\<close>

definition seg_under :: "string \<Rightarrow> string \<Rightarrow> bool" where
  "seg_under a q = (\<exists>r. q = a @ r \<and> (r = [] \<or> hd r = slash))"




section \<open>Example inputs\<close>

definition answer :: "Category \<Rightarrow> real \<Rightarrow> bool \<Rightarrow> string \<Rightarrow> ClassificationResult" where
  "answer c x m d =
     \<lparr>category = c, confidence = x, reason = ''r'', is_mixed = m, folder_description = d\<rparr>"

definition file_a :: FileMeta where
  "file_a = \<lparr>source_path = ''hw/a.pdf'', folder_path = ''hw'', file_name = ''a.pdf'',
             description = None\<rparr>"

definition file_b :: FileMeta where
  "file_b = \<lparr>source_path = ''hw/sol/b.pdf'', folder_path = ''hw/sol'', file_name = ''b.pdf'',
             description = None\<rparr>"

definition file_lock :: FileMeta where
  "file_lock = \<lparr>source_path = ''notes/generated.lock'', folder_path = ''notes'',
                file_name = ''generated.lock'', description = None\<rparr>"

definition file_readme :: FileMeta where
  "file_readme = \<lparr>source_path = ''readme.md'', folder_path = ''.'', file_name = ''readme.md'',
                  description = None\<rparr>"

definition folder_sol :: FolderNode where
  "folder_sol = FolderNode ''hw/sol'' ''sol'' [file_b] []"

definition folder_hw :: FolderNode where
  "folder_hw = FolderNode ''hw'' ''hw'' [file_a] [(''sol'', folder_sol)]"

definition folder_notes :: FolderNode where
  "folder_notes = FolderNode ''notes'' ''notes'' [file_lock] []"

definition course_tree :: FolderNode where
  "course_tree = FolderNode ''.'' ''root'' [file_readme] [(''hw'', folder_hw), (''notes'', folder_notes)]"

definition course_paths :: "string list" where
  "course_paths = [''hw/a.pdf'', ''hw/sol/b.pdf'', ''notes/generated.lock'', ''readme.md'']"

text \<open>A store that answers every call, and one whose bulk update raises.\<close>

definition working_db :: CourseDB where
  "working_db = \<lparr>get_uuids_for_files = (\<lambda>names. Inr names),
                 update_folder_description_bulk = (\<lambda>uuids d. Inr (length uuids))\<rparr>"

definition failing_db :: CourseDB where
  "failing_db = \<lparr>get_uuids_for_files = (\<lambda>names. Inr names),
                 update_folder_description_bulk = (\<lambda>uuids d. Inl (DBError ''database is locked''))\<rparr>"

text \<open>
  A classifier that is confident about \<open>hw\<close> (practice), unsure about every other folder,
  and skips lock files.
\<close>

definition stub_classifier :: LLMClassifier where
  "stub_classifier =
     \<lparr>classify_folder = (\<lambda>n fi st anc.
         if path n = ''hw'' then Inr (answer PRACTICE 0.9 False ''homework'')
         else Inr (answer SUPPORT 0.4 False ''misc'')),
      classify_file = (\<lambda>f fi anc.
         if file_name f = ''generated.lock'' then Inr (answer SKIP 1 False [])
         else Inr (answer SUPPORT 0.8 False []))\<rparr>"

definition stub_traverser :: BFSTraverser where
  "stub_traverser = \<lparr>db = working_db, classifier = stub_classifier, confidence_threshold = 0.75\<rparr>"

definition failing_traverser :: BFSTraverser where
  "failing_traverser = \<lparr>db = failing_db, classifier = stub_classifier, confidence_threshold = 0.75\<rparr>"

text \<open>A classifier that calls every folder mixed, and \<open>hw\<close> a confident skip as well.\<close>

definition mixed_classifier :: LLMClassifier where
  "mixed_classifier =
     \<lparr>classify_folder = (\<lambda>n fi st anc.
         if path n = ''hw'' then Inr (answer SKIP 0.9 True ''generated'')
         else Inr (answer STUDY 0.95 True ''notes'')),
      classify_file = (\<lambda>f fi anc. Inr (answer SUPPORT 0.8 False []))\<rparr>"

definition mixed_traverser :: BFSTraverser where
  "mixed_traverser = \<lparr>db = working_db, classifier = mixed_classifier, confidence_threshold = 0.75\<rparr>"

definition file_md :: FileMeta where
  "file_md = \<lparr>source_path = ''docs/README.md'', folder_path = ''docs'', file_name = ''README.md'',
              description = None\<rparr>"

definition file_json :: FileMeta where
  "file_json = \<lparr>source_path = ''docs/conf/settings.json'', folder_path = ''docs/conf'',
                file_name = ''settings.json'', description = None\<rparr>"

definition folder_docs :: FolderNode where
  "folder_docs = FolderNode ''docs'' ''docs'' [file_md]
                   [(''conf'', FolderNode ''docs/conf'' ''conf'' [file_json] [])]"


text \<open>A classifier that is confident that \<open>hw\<close> is to be skipped.\<close>

definition skip_classifier :: LLMClassifier where
  "skip_classifier =
     \<lparr>classify_folder = (\<lambda>n fi st anc.
         if path n = ''hw'' then Inr (answer SKIP 0.9 False ''generated'')
         else Inr (answer SUPPORT 0.4 False ''misc'')),
      classify_file = (\<lambda>f fi anc. Inr (answer SUPPORT 0.8 False []))\<rparr>"

definition skip_traverser :: BFSTraverser where
  "skip_traverser = \<lparr>db = working_db, classifier = skip_classifier, confidence_threshold = 0.75\<rparr>"

text \<open>
  Two PDF files whose suffixes differ in case only; and a PDF file beside a file without
  a suffix.
\<close>

definition file_upper :: FileMeta where
  "file_upper = \<lparr>source_path = ''hw/b.PDF'', folder_path = ''hw'', file_name = ''b.PDF'',
                 description = None\<rparr>"

definition file_make :: FileMeta where
  "file_make = \<lparr>source_path = ''hw/Makefile'', folder_path = ''hw'', file_name = ''Makefile'',
                description = None\<rparr>"

definition folder_case :: FolderNode where
  "folder_case = FolderNode ''hw'' ''hw'' [file_a, file_upper] []"

definition folder_make :: FolderNode where
  "folder_make = FolderNode ''hw'' ''hw'' [file_a, file_make] []"



section \<open>Termination of the loop\<close>

text \<open>Every step of the loop shrinks the queue, counted with the subtrees still to visit.\<close>

lemma propagate_queue: "propagate self n r fs s = Inr s' \<Longrightarrow> task_queue s' = task_queue s"
  by (auto simp: propagate_def Let_def split: if_splits sum.splits)

lemma assign_file_queue: "task_queue (assign_file n r ca s f) = task_queue s"
  by (simp add: assign_file_def Let_def)

lemma foldl_assign_queue: "task_queue (foldl (assign_file n r ca) s fs) = task_queue s"
  by (induction fs arbitrary: s) (simp_all add: assign_file_queue)

lemma process_folder_queue:
  assumes "process_folder self n fi s = Inr s'"
  shows "task_queue s' = task_queue s
       \<or> task_queue s' = task_queue s @ map (\<lambda>kc. Folder (snd kc)) (children n) @ map File (files n)"
  using assms
  by (auto simp: process_folder_def Let_def descend_def foldl_assign_queue
           dest!: propagate_queue split: if_splits sum.splits)

lemma process_file_queue: "process_file self f fi s = Inr s' \<Longrightarrow> task_queue s' = task_queue s"
  by (auto simp: process_file_def Let_def split: if_splits sum.splits)

lemma sum_list_Suc0: "sum_list (map (\<lambda>x. Suc 0) xs) = length xs"
  by (induction xs) simp_all

lemma sum_children_files:
  "sum_list (map item_size (map (\<lambda>kc. Folder (snd kc)) (children n) @ map File (files n)))
     < node_size n"
  by (cases n) (simp add: comp_def sum_list_Suc0)

lemma item_size_pos: "0 < item_size it"
proof (cases it)
  case (Folder n)
  then show ?thesis by (cases n) simp
next
  case (File f)
  then show ?thesis by simp
qed

lemma process_item_size:
  assumes "process_item self it fi s = Inr s'"
  shows "queue_size s' < queue_size s + item_size it"
proof (cases it)
  case (Folder n)
  with assms have "process_folder self n fi s = Inr s'" by (simp add: process_item_def)
  from process_folder_queue[OF this] sum_children_files[of n] Folder show ?thesis
    by (auto simp: queue_size_def)
next
  case (File f)
  with assms have "process_file self f fi s = Inr s'" by (simp add: process_item_def)
  from process_file_queue[OF this] File show ?thesis by (simp add: queue_size_def)
qed

termination bfs_loop
proof (relation "measure (\<lambda>(self, fi, s). queue_size s)")
  show "wf (measure (\<lambda>(self, fi, s). queue_size s))" by simp
next
  fix self :: BFSTraverser and fi :: file_index and s s1 :: bfs_state and it rest
  assume "task_queue s = it # rest" "s1 = s\<lparr>task_queue := rest\<rparr>"
  with item_size_pos[of it]
  show "((self, fi, s1), self, fi, s) \<in> measure (\<lambda>(self, fi, s). queue_size s)"
    by (simp add: queue_size_def)
next
  fix self :: BFSTraverser and fi :: file_index and s s1 s2 :: bfs_state and it rest
  assume q: "task_queue s = it # rest" and s1: "s1 = s\<lparr>task_queue := rest\<rparr>"
    and p: "process_item self it fi (s1\<lparr>seen := insert (item_key it) (seen s1)\<rparr>) = Inr s2"
  from process_item_size[OF p] q s1
  show "((self, fi, s2), self, fi, s) \<in> measure (\<lambda>(self, fi, s). queue_size s)"
    by (simp add: queue_size_def)
qed

declare bfs_loop.simps [simp del]

section \<open>Strings and destination paths\<close>

lemma replace_backslash_id: "backslash \<notin> set s \<Longrightarrow> replace_backslash s = s"
  by (induction s) (auto simp: replace_backslash_def)

lemma clean_literals:
  "clean_segment ''practice''" "clean_segment ''support''"
  "clean_segment ''study''" "clean_segment ''lecture''"
  by (simp_all add: clean_segment_def py_strip_def py_isspace_def backslash_def)

lemma join_rel_clean3:
  assumes "clean_segment a" "clean_segment b" "clean_segment c"
  shows "join_rel [a, b, c] = a @ slash # b @ slash # c"
  using assms by (simp add: join_rel_def clean_segment_def replace_backslash_id)

lemma join_rel_clean4:
  assumes "clean_segment a" "clean_segment b" "clean_segment c" "clean_segment d"
  shows "join_rel [a, b, c, d] = a @ slash # b @ slash # c @ slash # d"
  using assms by (simp add: join_rel_def clean_segment_def replace_backslash_id)

lemma join_rel_empty_mid:
  assumes "clean_segment a" "clean_segment c"
  shows "join_rel [a, [], c] = a @ slash # c"
  using assms by (simp add: join_rel_def clean_segment_def replace_backslash_id)

lemma join_rel_empty_third:
  assumes "clean_segment a" "clean_segment b" "clean_segment d"
  shows "join_rel [a, b, [], d] = a @ slash # b @ slash # d"
  using assms by (simp add: join_rel_def clean_segment_def replace_backslash_id)

lemma py_split_nonempty: "py_split sep s \<noteq> []"
  by (induction s) (auto split: list.splits)

lemma py_split_hd: "hd (py_split sep s) = takeWhile (\<lambda>c. c \<noteq> sep) s"
  by (induction s) (auto split: list.splits simp: py_split_nonempty)

lemma py_split_length: "length (py_split sep s) = Suc (length (filter (\<lambda>c. c = sep) s))"
  by (induction s) (auto split: list.splits simp: py_split_nonempty)

lemma py_split_single: "(Suc 0 < length (py_split sep s)) = (sep \<in> set s)"
  by (simp add: py_split_length filter_empty_conv)

lemma top_level_folder_eq:
  "top_level_folder p =
     (if slash \<in> set (replace_backslash p) then first_segment (replace_backslash p) else [])"
proof -
  let ?parts = "py_split slash (replace_backslash p)"
  have "?parts ! 0 = hd ?parts"
    using py_split_nonempty[of slash "replace_backslash p"] by (simp add: hd_conv_nth)
  then show ?thesis
    by (simp add: top_level_folder_def Let_def py_split_single first_segment_def py_split_hd)
qed

lemma assign_file_mappings:
  "mappings (assign_file n r ca s f)
     = AList.update (source_path f) (mapping_of (category r) (reason r) (source_path f)) (mappings s)"
  by (simp add: assign_file_def mapping_of_def Let_def)

lemma process_file_keep:
  assumes "classify_file (classifier self) f fi (get_list (ancestor_desc_map s) (folder_path f)) = Inr r"
    and "category r \<noteq> SKIP"
  shows "\<exists>s'. process_file self f fi s = Inr s'
           \<and> mappings s' = AList.update (source_path f)
                              (mapping_of (category r) (reason r) (source_path f)) (mappings s)"
  using assms by (simp add: process_file_def mapping_of_def Let_def)

section \<open>The three outcomes of a folder decision\<close>

lemma process_folder_error:
  assumes "folder_answer self n fi s = Inl e"
  shows "process_folder self n fi s = Inl (e, s\<lparr>folder_calls := folder_calls s @ [path n]\<rparr>)"
  using assms by (simp add: process_folder_def Let_def)

lemma process_folder_skip:
  assumes "folder_answer self n fi s = Inr r"
    and "get_list (ancestor_desc_map s) (path n) = anc"
    and "category r = SKIP" and "confidence r \<ge> confidence_threshold self"
  shows "process_folder self n fi s =
           Inr (s\<lparr>folder_calls := folder_calls s @ [path n],
                  folder_decisions := AList.update (path n) r (folder_decisions s),
                  skipped_folders := skipped_folders s @ [path n],
                  classifications :=
                    AList.update (path n) (folder_record n r [] anc) (classifications s)\<rparr>)"
  using assms by (simp add: process_folder_def Let_def folder_record_def)

lemma process_folder_descend:
  assumes "folder_answer self n fi s = Inr r"
    and "get_list (ancestor_desc_map s) (path n) = anc"
    and "\<not> (category r = SKIP \<and> confidence r \<ge> confidence_threshold self)"
    and "confidence r < confidence_threshold self \<or> is_mixed r \<or> category r = SKIP"
  shows "process_folder self n fi s =
           Inr (descend n (child_ancestors_of r anc)
                 (s\<lparr>folder_calls := folder_calls s @ [path n],
                    folder_decisions := AList.update (path n) r (folder_decisions s),
                    skipped_folders :=
                      (if category r = SKIP then skipped_folders s @ [path n]
                       else skipped_folders s),
                    classifications :=
                      AList.update (path n) (folder_record n r '' [descended]'' anc)
                        (classifications s)\<rparr>))"
  using assms unfolding child_ancestors_of_def folder_record_def
  by (auto simp add: process_folder_def Let_def is_confident_def)

lemma process_folder_assign:
  assumes "folder_answer self n fi s = Inr r"
    and "get_list (ancestor_desc_map s) (path n) = anc"
    and "category r \<noteq> SKIP" and "confidence r \<ge> confidence_threshold self"
    and "\<not> is_mixed r"
  shows "process_folder self n fi s =
           (case propagate self n r (collect_all_files n)
                   (s\<lparr>folder_calls := folder_calls s @ [path n],
                      folder_decisions := AList.update (path n) r (folder_decisions s),
                      classifications :=
                        AList.update (path n) (folder_record n r [] anc) (classifications s)\<rparr>) of
              Inl es \<Rightarrow> Inl es
            | Inr s4 \<Rightarrow>
                Inr (foldl (assign_file n r (child_ancestors_of r anc)) s4 (collect_all_files n)))"
  using assms unfolding child_ancestors_of_def folder_record_def
  by (simp add: process_folder_def Let_def is_confident_def)

lemma clean_examples: "clean_segment ''hw''" "clean_segment ''a.pdf''"
  by (simp_all add: clean_segment_def py_strip_def py_isspace_def backslash_def)

text \<open>
  Claim C4, as amended. For a top-level folder name and a tail that are clean segments
  (not empty, no white space at either end, no backslash), \<open>build_dest_rel\<close> maps practice
  to \<open>practice/<topFolder>/<tail>\<close>, support to \<open>support/<topFolder>/<tail>\<close>, study under
  \<open>lecture\<close> to \<open>study/lecture/<tail>\<close> and study under any other folder to
  \<open>study/lecture/<topFolder>/<tail>\<close>. With an empty top-level folder name, which is what a
  file directly under the root has, the segment is left out. The folder-inherited path
  (\<open>assign_file\<close>) and the file-individual path (\<open>process_file\<close>) store the same mapping,
  a function of the final category, the reason and the source path.
\<close>

theorem build_dest_rel_clean_segments:
  "(clean_segment topf \<and> clean_segment tail \<longrightarrow>
      build_dest_rel ''practice'' topf tail = ''practice/'' @ topf @ ''/'' @ tail
    \<and> build_dest_rel ''support'' topf tail = ''support/'' @ topf @ ''/'' @ tail
    \<and> build_dest_rel ''study'' ''lecture'' tail = ''study/lecture/'' @ tail
    \<and> (topf \<noteq> ''lecture'' \<longrightarrow>
          build_dest_rel ''study'' topf tail = ''study/lecture/'' @ topf @ ''/'' @ tail))
   \<and> (clean_segment tail \<longrightarrow>
      build_dest_rel ''practice'' [] tail = ''practice/'' @ tail
    \<and> build_dest_rel ''support'' [] tail = ''support/'' @ tail
    \<and> build_dest_rel ''study'' [] tail = ''study/lecture/'' @ tail)
   \<and> map_of (mappings (assign_file node r ca s f)) (source_path f)
        = Some (mapping_of (category r) (reason r) (source_path f))
   \<and> (classify_file (classifier self) f fi (get_list (ancestor_desc_map s) (folder_path f)) = Inr r
        \<and> category r \<noteq> SKIP \<longrightarrow>
      (\<exists>s'. process_file self f fi s = Inr s'
          \<and> map_of (mappings s') (source_path f)
               = Some (mapping_of (category r) (reason r) (source_path f))))"
proof -
  note lits = clean_literals
  have a: "clean_segment topf \<and> clean_segment tail \<longrightarrow>
      build_dest_rel ''practice'' topf tail = ''practice/'' @ topf @ ''/'' @ tail
    \<and> build_dest_rel ''support'' topf tail = ''support/'' @ topf @ ''/'' @ tail
    \<and> build_dest_rel ''study'' ''lecture'' tail = ''study/lecture/'' @ tail
    \<and> (topf \<noteq> ''lecture'' \<longrightarrow>
          build_dest_rel ''study'' topf tail = ''study/lecture/'' @ topf @ ''/'' @ tail)"
    using lits by (simp add: build_dest_rel_def join_rel_clean3 join_rel_clean4 slash_def)
  have b: "clean_segment tail \<longrightarrow>
      build_dest_rel ''practice'' [] tail = ''practice/'' @ tail
    \<and> build_dest_rel ''support'' [] tail = ''support/'' @ tail
    \<and> build_dest_rel ''study'' [] tail = ''study/lecture/'' @ tail"
    using lits by (simp add: build_dest_rel_def join_rel_empty_mid join_rel_empty_third slash_def)
  have c: "map_of (mappings (assign_file node r ca s f)) (source_path f)
        = Some (mapping_of (category r) (reason r) (source_path f))"
    by (simp add: assign_file_mappings update_conv')
  have d: "classify_file (classifier self) f fi (get_list (ancestor_desc_map s) (folder_path f)) = Inr r
        \<and> category r \<noteq> SKIP \<longrightarrow>
      (\<exists>s'. process_file self f fi s = Inr s'
          \<and> map_of (mappings s') (source_path f)
               = Some (mapping_of (category r) (reason r) (source_path f)))"
  proof
    assume h: "classify_file (classifier self) f fi (get_list (ancestor_desc_map s) (folder_path f)) = Inr r
        \<and> category r \<noteq> SKIP"
    from process_file_keep[of self f fi s r] h obtain s' where
      "process_file self f fi s = Inr s'"
      "mappings s' = AList.update (source_path f)
                              (mapping_of (category r) (reason r) (source_path f)) (mappings s)"
      by blast
    then show "\<exists>s'. process_file self f fi s = Inr s'
          \<and> map_of (mappings s') (source_path f)
               = Some (mapping_of (category r) (reason r) (source_path f))"
      by (simp add: update_conv')
  qed
  from a b c d show ?thesis by blast
qed

theorem build_dest_rel_clean_segments_witness:
  "clean_segment ''hw'' \<and> clean_segment ''a.pdf'' \<and> ''hw'' \<noteq> ''lecture''
   \<and> build_dest_rel ''practice'' ''hw'' ''a.pdf'' = ''practice/hw/a.pdf''
   \<and> build_dest_rel ''support'' ''hw'' ''a.pdf'' = ''support/hw/a.pdf''
   \<and> build_dest_rel ''study'' ''lecture'' ''a.pdf'' = ''study/lecture/a.pdf''
   \<and> build_dest_rel ''study'' ''hw'' ''a.pdf'' = ''study/lecture/hw/a.pdf''
   \<and> build_dest_rel ''practice'' [] ''a.pdf'' = ''practice/a.pdf''
   \<and> classify_file (classifier stub_traverser) file_a []
        (get_list (ancestor_desc_map (initial_state course_tree)) (folder_path file_a))
        = Inr (answer SUPPORT 0.8 False [])
   \<and> category (answer SUPPORT 0.8 False []) \<noteq> SKIP
   \<and> (\<exists>s'. process_file stub_traverser file_a [] (initial_state course_tree) = Inr s'
          \<and> map_of (mappings s') ''hw/a.pdf''
               = Some (mapping_of SUPPORT ''r'' ''hw/a.pdf''))"
proof -
  have h: "classify_file (classifier stub_traverser) file_a []
        (get_list (ancestor_desc_map (initial_state course_tree)) (folder_path file_a))
        = Inr (answer SUPPORT 0.8 False [])"
    by (simp add: stub_traverser_def stub_classifier_def file_a_def)
  have k: "category (answer SUPPORT 0.8 False []) \<noteq> SKIP" by (simp add: answer_def)
  show ?thesis
    using build_dest_rel_clean_segments[of "''hw''" "''a.pdf''" folder_hw
        "answer SUPPORT 0.8 False []" "[]" "initial_state course_tree" file_a stub_traverser "[]"]
      clean_examples h k
    by (simp add: file_a_def answer_def)
qed

text \<open>
  Claim C4 as stated fails for a file directly under the root: its top-level folder name
  is empty and the destination has no empty segment.
\<close>

theorem build_dest_rel_empty_top_folder:
  "build_dest_rel ''practice'' [] ''hw1.pdf'' = ''practice/hw1.pdf''
   \<and> build_dest_rel ''practice'' [] ''hw1.pdf'' \<noteq> ''practice/'' @ [] @ ''/'' @ ''hw1.pdf''"
  by (simp add: build_dest_rel_def join_rel_def py_strip_def py_isspace_def
      replace_backslash_def backslash_def slash_def)

text \<open>
  Claim C10, as amended. For a path with a separator (after backslashes are replaced by
  slashes) \<open>top_level_folder\<close> returns the first path segment; for a path without one it
  returns the empty string. That value is the \<open>top_folder\<close> of the file's mapping and the
  namespace root passed to \<open>build_dest_rel\<close> for its destination.
\<close>

theorem top_level_folder_first_segment:
  "(slash \<in> set (replace_backslash p) \<longrightarrow> top_level_folder p = first_segment (replace_backslash p))
   \<and> (slash \<notin> set (replace_backslash p) \<longrightarrow> top_level_folder p = [])
   \<and> top_folder (mapping_of c rsn (source_path f)) = top_level_folder (source_path f)
   \<and> dest_rel (mapping_of c rsn (source_path f))
        = build_dest_rel (category_value c) (top_level_folder (source_path f))
            (tail_of (top_level_folder (source_path f)) (source_path f))
   \<and> (classify_file (classifier self) f fi (get_list (ancestor_desc_map s) (folder_path f)) = Inr r
        \<and> category r \<noteq> SKIP \<longrightarrow>
      (\<exists>s' m. process_file self f fi s = Inr s'
          \<and> map_of (mappings s') (source_path f) = Some m
          \<and> top_folder m = top_level_folder (source_path f)
          \<and> dest_rel m = build_dest_rel (category_value (category r))
                           (top_level_folder (source_path f))
                           (tail_of (top_level_folder (source_path f)) (source_path f))))"
proof -
  have d: "classify_file (classifier self) f fi (get_list (ancestor_desc_map s) (folder_path f)) = Inr r
        \<and> category r \<noteq> SKIP \<longrightarrow>
      (\<exists>s' m. process_file self f fi s = Inr s'
          \<and> map_of (mappings s') (source_path f) = Some m
          \<and> top_folder m = top_level_folder (source_path f)
          \<and> dest_rel m = build_dest_rel (category_value (category r))
                           (top_level_folder (source_path f))
                           (tail_of (top_level_folder (source_path f)) (source_path f)))"
  proof
    assume h: "classify_file (classifier self) f fi (get_list (ancestor_desc_map s) (folder_path f)) = Inr r
        \<and> category r \<noteq> SKIP"
    from process_file_keep[of self f fi s r] h obtain s' where
      "process_file self f fi s = Inr s'"
      "mappings s' = AList.update (source_path f)
                              (mapping_of (category r) (reason r) (source_path f)) (mappings s)"
      by blast
    then show "\<exists>s' m. process_file self f fi s = Inr s'
          \<and> map_of (mappings s') (source_path f) = Some m
          \<and> top_folder m = top_level_folder (source_path f)
          \<and> dest_rel m = build_dest_rel (category_value (category r))
                           (top_level_folder (source_path f))
                           (tail_of (top_level_folder (source_path f)) (source_path f))"
      by (simp add: update_conv' mapping_of_def)
  qed
  then show ?thesis
    by (simp add: top_level_folder_eq mapping_of_def)
qed

theorem top_level_folder_first_segment_witness:
  "slash \<in> set (replace_backslash ''hw/a.pdf'')
   \<and> top_level_folder ''hw/a.pdf'' = ''hw''
   \<and> slash \<notin> set (replace_backslash ''readme.md'')
   \<and> top_level_folder ''readme.md'' = []
   \<and> classify_file (classifier stub_traverser) file_a []
        (get_list (ancestor_desc_map (initial_state course_tree)) (folder_path file_a))
        = Inr (answer SUPPORT 0.8 False [])
   \<and> category (answer SUPPORT 0.8 False []) \<noteq> SKIP
   \<and> (\<exists>s' m. process_file stub_traverser file_a [] (initial_state course_tree) = Inr s'
          \<and> map_of (mappings s') ''hw/a.pdf'' = Some m
          \<and> top_folder m = ''hw'' \<and> dest_rel m = ''support/hw/a.pdf'')"
proof -
  have h: "classify_file (classifier stub_traverser) file_a []
        (get_list (ancestor_desc_map (initial_state course_tree)) (folder_path file_a))
        = Inr (answer SUPPORT 0.8 False [])"
    by (simp add: stub_traverser_def stub_classifier_def file_a_def)
  have k: "category (answer SUPPORT 0.8 False []) \<noteq> SKIP" by (simp add: answer_def)
  have p1: "slash \<in> set (replace_backslash ''hw/a.pdf'')"
    by (simp add: replace_backslash_def slash_def backslash_def)
  have p2: "slash \<notin> set (replace_backslash ''readme.md'')"
    by (simp add: replace_backslash_def slash_def backslash_def)
  have v1: "first_segment (replace_backslash ''hw/a.pdf'') = ''hw''"
    by (simp add: first_segment_def replace_backslash_def slash_def backslash_def)
  have v2: "build_dest_rel ''support'' ''hw'' (tail_of ''hw'' ''hw/a.pdf'') = ''support/hw/a.pdf''"
    by code_simp
  show ?thesis
    using top_level_folder_first_segment[of "''hw/a.pdf''" SUPPORT "''r''" file_a stub_traverser "[]"
        "initial_state course_tree" "answer SUPPORT 0.8 False []"]
      top_level_folder_first_segment[of "''readme.md''" SUPPORT "''r''" file_a stub_traverser "[]"
        "initial_state course_tree" "answer SUPPORT 0.8 False []"]
      h k p1 p2 v1 v2
    by (simp add: file_a_def answer_def)
qed

text \<open>
  Claim C10 as stated fails for a file directly under the root: the first segment of
  \<open>readme.md\<close> is \<open>readme.md\<close>, and \<open>top_level_folder\<close> returns the empty string.
\<close>

theorem top_level_folder_root_file:
  "top_level_folder ''readme.md'' = [] \<and> first_segment ''readme.md'' = ''readme.md''
   \<and> top_level_folder ''readme.md'' \<noteq> first_segment ''readme.md''"
  by (simp add: top_level_folder_def first_segment_def replace_backslash_def slash_def backslash_def)

section \<open>Confident assignment and description propagation\<close>

lemma assign_file_classifications:
  "classifications (assign_file n r ca s f)
     = AList.update (source_path f) (inherited_record n r ca (source_path f)) (classifications s)"
  by (simp add: assign_file_def inherited_record_def Let_def)

lemma assign_file_frame:
  "task_queue (assign_file n r ca s f) = task_queue s"
  "seen (assign_file n r ca s f) = seen s"
  "ancestor_desc_map (assign_file n r ca s f) = ancestor_desc_map s"
  "folder_decisions (assign_file n r ca s f) = folder_decisions s"
  "skipped_folders (assign_file n r ca s f) = skipped_folders s"
  "folder_calls (assign_file n r ca s f) = folder_calls s"
  "file_calls (assign_file n r ca s f) = file_calls s"
  "file_decisions (assign_file n r ca s f) = file_decisions s"
  "propagations (assign_file n r ca s f) = propagations s"
  by (simp_all add: assign_file_def Let_def)

lemma foldl_assign_frame:
  "task_queue (foldl (assign_file n r ca) s fs) = task_queue s"
  "seen (foldl (assign_file n r ca) s fs) = seen s"
  "ancestor_desc_map (foldl (assign_file n r ca) s fs) = ancestor_desc_map s"
  "folder_decisions (foldl (assign_file n r ca) s fs) = folder_decisions s"
  "skipped_folders (foldl (assign_file n r ca) s fs) = skipped_folders s"
  "folder_calls (foldl (assign_file n r ca) s fs) = folder_calls s"
  "file_calls (foldl (assign_file n r ca) s fs) = file_calls s"
  "file_decisions (foldl (assign_file n r ca) s fs) = file_decisions s"
  "propagations (foldl (assign_file n r ca) s fs) = propagations s"
  by (induction fs arbitrary: s; simp add: assign_file_frame)+

lemma foldl_assign_mappings:
  "map_of (mappings (foldl (assign_file n r ca) s fs)) k
     = (if k \<in> source_path ` set fs then Some (mapping_of (category r) (reason r) k)
        else map_of (mappings s) k)"
  by (induction fs arbitrary: s) (auto simp: assign_file_mappings update_conv')

lemma foldl_assign_classifications:
  "map_of (classifications (foldl (assign_file n r ca) s fs)) k
     = (if k \<in> source_path ` set fs then Some (inherited_record n r ca k)
        else map_of (classifications s) k)"
  by (induction fs arbitrary: s) (auto simp: assign_file_classifications update_conv')

lemma propagate_cases:
  "propagate self n r fs s = Inr s' \<Longrightarrow>
     s' = s \<or> (\<exists>uuids. s' = s\<lparr>propagations := propagations s @ [(path n, uuids, folder_description r)]\<rparr>)"
  by (auto simp: propagate_def Let_def split: if_splits sum.splits)

lemma propagate_fails:
  assumes "folder_description r \<noteq> []"
    and "get_uuids_for_files (db self) (map file_name fs) = Inr uuids" and "uuids \<noteq> []"
    and "update_folder_description_bulk (db self) uuids (folder_description r) = Inl e"
  shows "propagate self n r fs s
           = Inl (e, s\<lparr>propagations := propagations s @ [(path n, uuids, folder_description r)]\<rparr>)"
  using assms by (simp add: propagate_def Let_def)

lemma propagate_succeeds:
  assumes "folder_description r \<noteq> []"
    and "get_uuids_for_files (db self) (map file_name fs) = Inr uuids" and "uuids \<noteq> []"
    and "update_folder_description_bulk (db self) uuids (folder_description r) = Inr cnt"
  shows "propagate self n r fs s
           = Inr (s\<lparr>propagations := propagations s @ [(path n, uuids, folder_description r)]\<rparr>)"
  using assms by (simp add: propagate_def Let_def)

lemma bfs_loop_error:
  assumes "task_queue s = it # rest" and "item_key it \<notin> seen s"
    and "process_item self it fi (s\<lparr>task_queue := rest, seen := insert (item_key it) (seen s)\<rparr>) = Inl es"
  shows "bfs_loop self fi s = Inl es"
  using assms by (subst bfs_loop.simps) (simp add: Let_def)

text \<open>
  Claim C5, as amended. A folder at the head of the queue is confidently assigned and its
  description is to be written to at least one file. If the bulk update raises, the
  exception ends the traversal: the loop returns that error, with the folder's own record in
  the classifications and no record and no mapping for any file of the subtree. If the bulk
  update returns, every file of the subtree gets its inherited record and its mapping.
\<close>

theorem propagation_failure_is_fatal:
  assumes "task_queue s = Folder n # rest" and "path n \<notin> seen s"
    and "folder_answer self n fi s = Inr r"
    and "category r \<noteq> SKIP" and "confidence r \<ge> confidence_threshold self" and "\<not> is_mixed r"
    and "folder_description r \<noteq> []"
    and "get_uuids_for_files (db self) (map file_name (collect_all_files n)) = Inr uuids"
    and "uuids \<noteq> []"
  shows "(update_folder_description_bulk (db self) uuids (folder_description r) = Inl e \<longrightarrow>
            (\<exists>s'. bfs_loop self fi s = Inl (e, s')
               \<and> mappings s' = mappings s
               \<and> classifications s'
                   = AList.update (path n)
                       (folder_record n r [] (get_list (ancestor_desc_map s) (path n)))
                       (classifications s)))
       \<and> (update_folder_description_bulk (db self) uuids (folder_description r) = Inr cnt \<longrightarrow>
            (\<exists>s'. process_folder self n fi
                     (s\<lparr>task_queue := rest, seen := insert (path n) (seen s)\<rparr>) = Inr s'
               \<and> (\<forall>f \<in> set (collect_all_files n).
                     map_of (mappings s') (source_path f)
                       = Some (mapping_of (category r) (reason r) (source_path f))
                   \<and> map_of (classifications s') (source_path f)
                       = Some (inherited_record n r
                                (child_ancestors_of r (get_list (ancestor_desc_map s) (path n)))
                                (source_path f)))))"
proof -
  let ?s1 = "s\<lparr>task_queue := rest, seen := insert (path n) (seen s)\<rparr>"
  let ?anc = "get_list (ancestor_desc_map s) (path n)"
  let ?s3 = "?s1\<lparr>folder_calls := folder_calls ?s1 @ [path n],
                 folder_decisions := AList.update (path n) r (folder_decisions ?s1),
                 classifications :=
                   AList.update (path n) (folder_record n r [] ?anc) (classifications ?s1)\<rparr>"
  let ?s4 = "?s3\<lparr>propagations := propagations ?s3 @ [(path n, uuids, folder_description r)]\<rparr>"
  have ans: "folder_answer self n fi ?s1 = Inr r" using assms(3) by simp
  have anc: "get_list (ancestor_desc_map ?s1) (path n) = ?anc" by simp
  have pf: "process_folder self n fi ?s1 =
       (case propagate self n r (collect_all_files n) ?s3 of
          Inl es \<Rightarrow> Inl es
        | Inr s4 \<Rightarrow> Inr (foldl (assign_file n r (child_ancestors_of r ?anc)) s4 (collect_all_files n)))"
    using process_folder_assign[OF ans anc assms(4,5,6)] by simp
  have fail: "\<exists>s'. bfs_loop self fi s = Inl (e, s') \<and> mappings s' = mappings s
               \<and> classifications s' = AList.update (path n) (folder_record n r [] ?anc) (classifications s)"
    if u: "update_folder_description_bulk (db self) uuids (folder_description r) = Inl e"
  proof -
    have "propagate self n r (collect_all_files n) ?s3 = Inl (e, ?s4)"
      by (rule propagate_fails[OF assms(7,8,9) u])
    with pf have "process_item self (Folder n) fi ?s1 = Inl (e, ?s4)"
      by (simp add: process_item_def)
    with bfs_loop_error[of s "Folder n" rest self fi "(e, ?s4)"] assms(1,2)
    have "bfs_loop self fi s = Inl (e, ?s4)" by simp
    then show ?thesis by simp
  qed
  have ok: "\<exists>s'. process_folder self n fi ?s1 = Inr s'
               \<and> (\<forall>f \<in> set (collect_all_files n).
                     map_of (mappings s') (source_path f)
                       = Some (mapping_of (category r) (reason r) (source_path f))
                   \<and> map_of (classifications s') (source_path f)
                       = Some (inherited_record n r (child_ancestors_of r ?anc) (source_path f)))"
    if u: "update_folder_description_bulk (db self) uuids (folder_description r) = Inr cnt"
  proof -
    have "propagate self n r (collect_all_files n) ?s3 = Inr ?s4"
      by (rule propagate_succeeds[OF assms(7,8,9) u])
    with pf have "process_folder self n fi ?s1
        = Inr (foldl (assign_file n r (child_ancestors_of r ?anc)) ?s4 (collect_all_files n))"
      by simp
    then show ?thesis
      by (simp add: foldl_assign_mappings foldl_assign_classifications)
  qed
  from fail ok show ?thesis by blast
qed


lemma collect_hw: "collect_all_files folder_hw = [file_a, file_b]"
  by (simp add: collect_all_files_def folder_hw_def folder_sol_def)

lemma initial_queue:
  "task_queue (initial_state course_tree) = [Folder folder_hw, Folder folder_notes, File file_readme]"
  by (simp add: initial_state_def course_tree_def)

text \<open>
  The theorem at the example course: the same folder with a store whose bulk update raises
  and with one that answers.
\<close>

theorem propagation_failure_is_fatal_witness:
  "task_queue (initial_state course_tree) = Folder folder_hw # [Folder folder_notes, File file_readme]
   \<and> path folder_hw \<notin> seen (initial_state course_tree)
   \<and> folder_answer failing_traverser folder_hw [] (initial_state course_tree)
        = Inr (answer PRACTICE 0.9 False ''homework'')
   \<and> folder_answer stub_traverser folder_hw [] (initial_state course_tree)
        = Inr (answer PRACTICE 0.9 False ''homework'')
   \<and> get_uuids_for_files (db failing_traverser) (map file_name (collect_all_files folder_hw))
        = Inr [''a.pdf'', ''b.pdf'']
   \<and> update_folder_description_bulk (db failing_traverser) [''a.pdf'', ''b.pdf''] ''homework''
        = Inl (DBError ''database is locked'')
   \<and> update_folder_description_bulk (db stub_traverser) [''a.pdf'', ''b.pdf''] ''homework'' = Inr 2
   \<and> (\<exists>s'. bfs_loop failing_traverser [] (initial_state course_tree)
              = Inl (DBError ''database is locked'', s')
          \<and> mappings s' = [] \<and> map fst (classifications s') = [''hw''])
   \<and> (\<exists>s'. process_folder stub_traverser folder_hw []
               ((initial_state course_tree)
                  \<lparr>task_queue := [Folder folder_notes, File file_readme],
                   seen := insert (path folder_hw) (seen (initial_state course_tree))\<rparr>) = Inr s'
          \<and> map_of (mappings s') ''hw/a.pdf'' = Some (mapping_of PRACTICE ''r'' ''hw/a.pdf'')
          \<and> map_of (mappings s') ''hw/sol/b.pdf'' = Some (mapping_of PRACTICE ''r'' ''hw/sol/b.pdf''))"
proof -
  let ?s = "initial_state course_tree"
  let ?r = "answer PRACTICE 0.9 False ''homework''"
  have q: "task_queue ?s = Folder folder_hw # [Folder folder_notes, File file_readme]"
    by (simp add: initial_queue)
  have ns: "path folder_hw \<notin> seen ?s" by (simp add: initial_state_def)
  have a1: "folder_answer failing_traverser folder_hw [] ?s = Inr ?r"
    by (simp add: failing_traverser_def stub_classifier_def folder_hw_def)
  have a2: "folder_answer stub_traverser folder_hw [] ?s = Inr ?r"
    by (simp add: stub_traverser_def stub_classifier_def folder_hw_def)
  have c: "category ?r \<noteq> SKIP" "\<not> is_mixed ?r" "folder_description ?r \<noteq> []"
    by (simp_all add: answer_def)
  have t1: "confidence ?r \<ge> confidence_threshold failing_traverser"
    by (simp add: answer_def failing_traverser_def)
  have t2: "confidence ?r \<ge> confidence_threshold stub_traverser"
    by (simp add: answer_def stub_traverser_def)
  have u1: "get_uuids_for_files (db failing_traverser) (map file_name (collect_all_files folder_hw))
        = Inr [''a.pdf'', ''b.pdf'']"
    by (simp add: collect_hw failing_traverser_def failing_db_def file_a_def file_b_def)
  have u2: "get_uuids_for_files (db stub_traverser) (map file_name (collect_all_files folder_hw))
        = Inr [''a.pdf'', ''b.pdf'']"
    by (simp add: collect_hw stub_traverser_def working_db_def file_a_def file_b_def)
  have ne: "[''a.pdf'', ''b.pdf''] \<noteq> ([] :: string list)" by simp
  have f: "update_folder_description_bulk (db failing_traverser) [''a.pdf'', ''b.pdf'']
             (folder_description ?r) = Inl (DBError ''database is locked'')"
    by (simp add: failing_traverser_def failing_db_def)
  have g: "update_folder_description_bulk (db stub_traverser) [''a.pdf'', ''b.pdf'']
             (folder_description ?r) = Inr 2"
    by (simp add: stub_traverser_def working_db_def)
  have e0: "classifications ?s = []" "mappings ?s = []" by (simp_all add: initial_state_def)
  from propagation_failure_is_fatal[OF q ns a1 c(1) t1 c(2) c(3) u1 ne,
        of "DBError ''database is locked''" 2] f
  obtain s1 where l: "bfs_loop failing_traverser [] ?s = Inl (DBError ''database is locked'', s1)"
    and m1: "mappings s1 = mappings ?s"
    and c1: "classifications s1 = AList.update (path folder_hw)
               (folder_record folder_hw ?r [] (get_list (ancestor_desc_map ?s) (path folder_hw)))
               (classifications ?s)"
    by blast
  have A: "\<exists>s'. bfs_loop failing_traverser [] ?s = Inl (DBError ''database is locked'', s')
          \<and> mappings s' = [] \<and> map fst (classifications s') = [''hw'']"
    using l m1 c1 e0 by (simp add: folder_hw_def)
  let ?s1 = "?s\<lparr>task_queue := [Folder folder_notes, File file_readme],
                 seen := insert (path folder_hw) (seen ?s)\<rparr>"
  from propagation_failure_is_fatal[OF q ns a2 c(1) t2 c(2) c(3) u2 ne,
        of "DBError ''database is locked''" 2] g
  obtain s2 where p: "process_folder stub_traverser folder_hw [] ?s1 = Inr s2"
    and m2: "\<forall>f \<in> set (collect_all_files folder_hw).
               map_of (mappings s2) (source_path f)
                 = Some (mapping_of (category ?r) (reason ?r) (source_path f))"
    by blast
  have B: "\<exists>s'. process_folder stub_traverser folder_hw [] ?s1 = Inr s'
          \<and> map_of (mappings s') ''hw/a.pdf'' = Some (mapping_of PRACTICE ''r'' ''hw/a.pdf'')
          \<and> map_of (mappings s') ''hw/sol/b.pdf'' = Some (mapping_of PRACTICE ''r'' ''hw/sol/b.pdf'')"
    using p m2 by (simp add: collect_hw answer_def file_a_def file_b_def)
  have g': "update_folder_description_bulk (db stub_traverser) [''a.pdf'', ''b.pdf''] ''homework'' = Inr 2"
    and f': "update_folder_description_bulk (db failing_traverser) [''a.pdf'', ''b.pdf''] ''homework''
        = Inl (DBError ''database is locked'')"
    using f g by (simp_all add: answer_def)
  from q ns a1 a2 u1 f' g' A B show ?thesis by blast
qed

text \<open>
  Claim C5 as stated fails: with a store whose bulk update raises, \<open>_bfs_classify\<close> returns
  no result at all, so no mapping of the subtree is produced.
\<close>

theorem propagation_failure_loses_result:
  "bfs_classify failing_traverser course_tree [] = Inl (DBError ''database is locked'')"
  by code_simp

section \<open>Mixed folders\<close>

lemma descend_frame:
  "classifications (descend n ca s) = classifications s"
  "mappings (descend n ca s) = mappings s"
  "propagations (descend n ca s) = propagations s"
  "seen (descend n ca s) = seen s"
  "folder_decisions (descend n ca s) = folder_decisions s"
  "skipped_folders (descend n ca s) = skipped_folders s"
  "folder_calls (descend n ca s) = folder_calls s"
  "file_calls (descend n ca s) = file_calls s"
  "file_decisions (descend n ca s) = file_decisions s"
  "task_queue (descend n ca s)
     = task_queue s @ map (\<lambda>kc. Folder (snd kc)) (children n) @ map File (files n)"
  by (simp_all add: descend_def)

text \<open>
  Claim C3, as amended. For a folder whose decision is mixed, processing the folder adds no
  mapping, makes no propagation call and changes no classification other than the folder's
  own, so the folder's category is never assigned to a file. Unless the decision is a
  confident Skip, the engine descends: the folder's child folders and immediate files are
  appended to the queue and the folder's record carries the note \<open>[descended]\<close>. A mixed
  decision that is a confident Skip prunes the folder: nothing is enqueued.
\<close>

theorem mixed_folder_never_assigned:
  assumes "folder_answer self n fi s = Inr r" and "is_mixed r"
  shows "\<exists>s'. process_folder self n fi s = Inr s'
          \<and> mappings s' = mappings s \<and> propagations s' = propagations s
          \<and> (\<forall>k. k \<noteq> path n \<longrightarrow> map_of (classifications s') k = map_of (classifications s) k)
          \<and> (\<not> (category r = SKIP \<and> confidence r \<ge> confidence_threshold self) \<longrightarrow>
                task_queue s'
                  = task_queue s @ map (\<lambda>kc. Folder (snd kc)) (children n) @ map File (files n)
              \<and> map_of (classifications s') (path n)
                  = Some (folder_record n r '' [descended]''
                            (get_list (ancestor_desc_map s) (path n))))
          \<and> (category r = SKIP \<and> confidence r \<ge> confidence_threshold self \<longrightarrow>
                task_queue s' = task_queue s
              \<and> map_of (classifications s') (path n)
                  = Some (folder_record n r [] (get_list (ancestor_desc_map s) (path n))))"
proof (cases "category r = SKIP \<and> confidence r \<ge> confidence_threshold self")
  case True
  with process_folder_skip[OF assms(1) refl] show ?thesis
    by (simp add: update_conv')
next
  case False
  from assms(2) have "confidence r < confidence_threshold self \<or> is_mixed r \<or> category r = SKIP"
    by simp
  from process_folder_descend[OF assms(1) refl False this] False show ?thesis
    by (auto simp add: descend_frame update_conv')
qed

text \<open>
  The theorem at the example course: \<open>notes\<close> is mixed and descended, \<open>hw\<close> is mixed and a
  confident Skip.
\<close>

theorem mixed_folder_never_assigned_witness:
  "folder_answer mixed_traverser folder_notes [] (initial_state course_tree)
     = Inr (answer STUDY 0.95 True ''notes'')
   \<and> is_mixed (answer STUDY 0.95 True ''notes'')
   \<and> \<not> (category (answer STUDY 0.95 True ''notes'') = SKIP
        \<and> confidence (answer STUDY 0.95 True ''notes'') \<ge> confidence_threshold mixed_traverser)
   \<and> (\<exists>s'. process_folder mixed_traverser folder_notes [] (initial_state course_tree) = Inr s'
          \<and> mappings s' = []
          \<and> task_queue s' = [Folder folder_hw, Folder folder_notes, File file_readme, File file_lock]
          \<and> map_of (classifications s') ''notes''
               = Some (folder_record folder_notes (answer STUDY 0.95 True ''notes'')
                         '' [descended]'' []))
   \<and> folder_answer mixed_traverser folder_hw [] (initial_state course_tree)
     = Inr (answer SKIP 0.9 True ''generated'')
   \<and> is_mixed (answer SKIP 0.9 True ''generated'')
   \<and> category (answer SKIP 0.9 True ''generated'') = SKIP
   \<and> confidence (answer SKIP 0.9 True ''generated'') \<ge> confidence_threshold mixed_traverser
   \<and> (\<exists>s'. process_folder mixed_traverser folder_hw [] (initial_state course_tree) = Inr s'
          \<and> mappings s' = []
          \<and> task_queue s' = [Folder folder_hw, Folder folder_notes, File file_readme])"
proof -
  let ?s = "initial_state course_tree"
  let ?r1 = "answer STUDY 0.95 True ''notes''"
  let ?r2 = "answer SKIP 0.9 True ''generated''"
  have a1: "folder_answer mixed_traverser folder_notes [] ?s = Inr ?r1"
    by (simp add: mixed_traverser_def mixed_classifier_def folder_notes_def)
  have a2: "folder_answer mixed_traverser folder_hw [] ?s = Inr ?r2"
    by (simp add: mixed_traverser_def mixed_classifier_def folder_hw_def)
  have m: "is_mixed ?r1" "is_mixed ?r2" by (simp_all add: answer_def)
  have n1: "\<not> (category ?r1 = SKIP \<and> confidence ?r1 \<ge> confidence_threshold mixed_traverser)"
    by (simp add: answer_def)
  have n2: "category ?r2 = SKIP" "confidence ?r2 \<ge> confidence_threshold mixed_traverser"
    by (simp_all add: answer_def mixed_traverser_def)
  have q: "task_queue ?s = [Folder folder_hw, Folder folder_notes, File file_readme]"
    and e: "mappings ?s = []" "get_list (ancestor_desc_map ?s) (path folder_notes) = []"
    by (simp_all add: initial_state_def course_tree_def get_list_def folder_hw_def folder_notes_def)
  have kids: "map (\<lambda>kc. Folder (snd kc)) (children folder_notes) @ map File (files folder_notes)
                = [File file_lock]" "path folder_notes = ''notes''"
    by (simp_all add: folder_notes_def)
  from mixed_folder_never_assigned[OF a1 m(1)] n1
  obtain s1 where "process_folder mixed_traverser folder_notes [] ?s = Inr s1"
    "mappings s1 = mappings ?s"
    "task_queue s1 = task_queue ?s @ map (\<lambda>kc. Folder (snd kc)) (children folder_notes)
                       @ map File (files folder_notes)"
    "map_of (classifications s1) (path folder_notes)
       = Some (folder_record folder_notes ?r1 '' [descended]''
                 (get_list (ancestor_desc_map ?s) (path folder_notes)))"
    by blast
  then have A: "\<exists>s'. process_folder mixed_traverser folder_notes [] ?s = Inr s'
          \<and> mappings s' = []
          \<and> task_queue s' = [Folder folder_hw, Folder folder_notes, File file_readme, File file_lock]
          \<and> map_of (classifications s') ''notes''
               = Some (folder_record folder_notes ?r1 '' [descended]'' [])"
    using q e kids by simp
  from mixed_folder_never_assigned[OF a2 m(2)] n2
  obtain s2 where "process_folder mixed_traverser folder_hw [] ?s = Inr s2"
    "mappings s2 = mappings ?s" "task_queue s2 = task_queue ?s"
    by blast
  then have B: "\<exists>s'. process_folder mixed_traverser folder_hw [] ?s = Inr s'
          \<and> mappings s' = []
          \<and> task_queue s' = [Folder folder_hw, Folder folder_notes, File file_readme]"
    using q e by simp
  from a1 a2 m n1 n2 A B show ?thesis by blast
qed

text \<open>
  Claim C3 as stated fails: the confident-Skip test comes first and does not look at
  \<open>is_mixed\<close>, so a mixed folder that is a confident Skip is not descended.
\<close>

theorem mixed_confident_skip_is_pruned:
  "folder_answer mixed_traverser folder_hw [] (initial_state course_tree)
     = Inr (answer SKIP 0.9 True ''generated'')
   \<and> is_mixed (answer SKIP 0.9 True ''generated'')
   \<and> files folder_hw = [file_a] \<and> children folder_hw = [(''sol'', folder_sol)]
   \<and> process_folder mixed_traverser folder_hw [] (initial_state course_tree)
       = Inr ((initial_state course_tree)
               \<lparr>folder_calls := [''hw''],
                folder_decisions := [(''hw'', answer SKIP 0.9 True ''generated'')],
                skipped_folders := [''hw''],
                classifications :=
                  [(''hw'', folder_record folder_hw (answer SKIP 0.9 True ''generated'') [] [])]\<rparr>)
   \<and> task_queue ((initial_state course_tree)
               \<lparr>folder_calls := [''hw''],
                folder_decisions := [(''hw'', answer SKIP 0.9 True ''generated'')],
                skipped_folders := [''hw''],
                classifications :=
                  [(''hw'', folder_record folder_hw (answer SKIP 0.9 True ''generated'') [] [])]\<rparr>)
       = [Folder folder_hw, Folder folder_notes, File file_readme]"
proof -
  let ?s = "initial_state course_tree"
  let ?r2 = "answer SKIP 0.9 True ''generated''"
  have a2: "folder_answer mixed_traverser folder_hw [] ?s = Inr ?r2"
    by (simp add: mixed_traverser_def mixed_classifier_def folder_hw_def)
  have n2: "category ?r2 = SKIP" "confidence ?r2 \<ge> confidence_threshold mixed_traverser"
    by (simp_all add: answer_def mixed_traverser_def)
  have e: "get_list (ancestor_desc_map ?s) (path folder_hw) = []"
    by (simp add: initial_state_def course_tree_def get_list_def folder_hw_def folder_notes_def)
  have q: "task_queue ?s = [Folder folder_hw, Folder folder_notes, File file_readme]"
    by (simp add: initial_state_def course_tree_def)
  have i: "folder_calls ?s = []" "folder_decisions ?s = []" "skipped_folders ?s = []"
    "classifications ?s = []" "path folder_hw = ''hw''"
    by (simp_all add: initial_state_def folder_hw_def)
  from process_folder_skip[OF a2 e n2] i
  have "process_folder mixed_traverser folder_hw [] ?s
       = Inr (?s\<lparr>folder_calls := [''hw''],
                folder_decisions := [(''hw'', ?r2)],
                skipped_folders := [''hw''],
                classifications := [(''hw'', folder_record folder_hw ?r2 [] [])]\<rparr>)"
    by simp
  with a2 q show ?thesis by (simp add: answer_def folder_hw_def)
qed

section \<open>Folder statistics\<close>

lemma count_ext_keys: "fst ` set (count_ext acc f) = insert (ext_key f) (fst ` set acc)"
  by (simp add: count_ext_def dom_update)

lemma foldl_count_ext_keys:
  "fst ` set (foldl count_ext acc fs) = fst ` set acc \<union> ext_key ` set fs"
  by (induction fs arbitrary: acc) (auto simp: count_ext_keys)

section \<open>The shape of the tree\<close>

lemma py_join_snoc: "agg \<noteq> [] \<Longrightarrow> py_join (agg @ [p]) = py_join agg @ slash # p"
  by (induction agg rule: py_join.induct) simp_all

lemma py_join_split: "py_join (py_split slash s) = s"
proof (induction s)
  case Nil
  then show ?case by simp
next
  case (Cons c cs)
  show ?case
  proof (cases "py_split slash cs")
    case Nil
    then show ?thesis using py_split_nonempty[of slash cs] by simp
  next
    case (Cons w ws)
    with Cons.IH show ?thesis by (cases ws) auto
  qed
qed

lemma well_placed_sel:
  "well_placed node =
     (distinct (map fst (children node))
      \<and> (\<forall>f \<in> set (files node). folder_path f = path node)
      \<and> (\<forall>kc \<in> set (children node). name (snd kc) = fst kc
             \<and> path (snd kc) = path node @ slash # fst kc \<and> well_placed (snd kc)))"
  by (cases node) simp

lemma attach_file_path_name:
  "path (attach_file node agg ps fm) = path node \<and> name (attach_file node agg ps fm) = name node"
  by (cases ps) (simp_all add: Let_def)

lemma in_update_cases:
  assumes "kc \<in> set (AList.update k v al)"
  shows "kc = (k, v) \<or> kc \<in> set al"
  using assms by (induction al) (auto split: if_splits)

lemma attach_file_well_placed:
  assumes "well_placed node" and "agg \<noteq> []" and "path node = py_join agg"
    and "folder_path fm = py_join (agg @ ps)"
  shows "well_placed (attach_file node agg ps fm)"
  using assms
proof (induction ps arbitrary: node agg)
  case Nil
  then show ?case by (simp add: well_placed_sel[of node] well_placed_sel[of "FolderNode _ _ _ _"])
next
  case (Cons p ps)
  let ?agg = "agg @ [p]"
  let ?child = "case map_of (children node) p of
                  None \<Rightarrow> FolderNode (py_join ?agg) p [] [] | Some c \<Rightarrow> c"
  have wp: "distinct (map fst (children node))"
    "\<forall>f \<in> set (files node). folder_path f = path node"
    "\<forall>kc \<in> set (children node). name (snd kc) = fst kc
        \<and> path (snd kc) = path node @ slash # fst kc \<and> well_placed (snd kc)"
    using Cons.prems(1) by (simp_all add: well_placed_sel[of node])
  have pj: "py_join ?agg = path node @ slash # p"
    using Cons.prems(2,3) by (simp add: py_join_snoc)
  have child: "well_placed ?child \<and> path ?child = py_join ?agg \<and> name ?child = p"
  proof (cases "map_of (children node) p")
    case None
    then show ?thesis by simp
  next
    case (Some c)
    then have "(p, c) \<in> set (children node)" by (rule map_of_SomeD)
    with wp(3) Some pj show ?thesis by fastforce
  qed
  have rec: "well_placed (attach_file ?child ?agg ps fm)"
    using Cons.IH[of ?child ?agg] child Cons.prems(4) by simp
  have pn: "path (attach_file ?child ?agg ps fm) = path node @ slash # p"
    "name (attach_file ?child ?agg ps fm) = p"
    using attach_file_path_name[of ?child ?agg ps fm] child pj by simp_all
  have "\<forall>kc \<in> set (AList.update p (attach_file ?child ?agg ps fm) (children node)).
          name (snd kc) = fst kc \<and> path (snd kc) = path node @ slash # fst kc
          \<and> well_placed (snd kc)"
    using wp(3) rec pn by (auto dest!: in_update_cases)
  then show ?case
    using wp(1,2)
    by (simp add: Let_def well_placed_sel[of "FolderNode _ _ _ _"] distinct_update)
qed

lemma build_tree_step_well_rooted:
  assumes "well_rooted t"
  shows "well_rooted (build_tree_step fi t rel_path)"
proof (cases "folder_of rel_path = ''.''")
  case True
  with assms show ?thesis
    by (simp add: build_tree_step_def Let_def well_rooted_def)
next
  case False
  let ?folder = "folder_of rel_path"
  let ?fm = "\<lparr>source_path = rel_path, folder_path = ?folder, file_name = basename rel_path,
             description = (case map_of fi (basename rel_path) of
                              None \<Rightarrow> None | Some entry \<Rightarrow> Some (entry_description entry))\<rparr>"
  obtain p ps where parts: "py_split slash ?folder = p # ps"
    using py_split_nonempty[of slash ?folder] by (cases "py_split slash ?folder") auto
  have step: "build_tree_step fi t rel_path = attach_file t [] (p # ps) ?fm"
    using False parts by (simp add: build_tree_step_def Let_def)
  let ?child = "case map_of (children t) p of None \<Rightarrow> FolderNode (py_join [p]) p [] [] | Some c \<Rightarrow> c"
  have child: "well_placed ?child \<and> path ?child = p \<and> name ?child = p"
  proof (cases "map_of (children t) p")
    case None
    then show ?thesis by simp
  next
    case (Some c)
    then have "(p, c) \<in> set (children t)" by (rule map_of_SomeD)
    with assms Some show ?thesis by (fastforce simp: well_rooted_def)
  qed
  have fp: "folder_path ?fm = py_join ([p] @ ps)"
    using py_join_split[of ?folder] parts by simp
  have rec: "well_placed (attach_file ?child [p] ps ?fm)"
    using attach_file_well_placed[of ?child "[p]" ?fm ps] child fp by simp
  have pn: "path (attach_file ?child [p] ps ?fm) = p" "name (attach_file ?child [p] ps ?fm) = p"
    using attach_file_path_name[of ?child "[p]" ps ?fm] child by simp_all
  have "\<forall>kc \<in> set (AList.update p (attach_file ?child [p] ps ?fm) (children t)).
          name (snd kc) = fst kc \<and> path (snd kc) = fst kc \<and> well_placed (snd kc)"
    using assms rec pn by (auto simp: well_rooted_def dest!: in_update_cases)
  then show ?thesis
    using assms unfolding step
    by (simp add: Let_def well_rooted_def distinct_update)
qed

lemma foldl_step_well_rooted:
  "well_rooted t \<Longrightarrow> well_rooted (foldl (build_tree_step fi) t fs)"
  by (induction fs arbitrary: t) (simp_all add: build_tree_step_well_rooted)

lemma build_tree_well_rooted: "well_rooted (build_tree fs fi)"
  unfolding build_tree_def
  by (rule foldl_step_well_rooted) (simp add: well_rooted_def)

lemma subtree_files_sel:
  "subtree_files node = files node @ concat (map (\<lambda>kc. subtree_files (snd kc)) (children node))"
  by (cases node) simp

lemma update_present:
  "map_of cs p = Some c \<Longrightarrow>
     \<exists>xs ys. cs = xs @ (p, c) # ys \<and> AList.update p v cs = xs @ (p, v) # ys"
proof (induction cs)
  case Nil
  then show ?case by simp
next
  case (Cons kd cs)
  show ?case
  proof (cases "fst kd = p")
    case True
    with Cons.prems have "kd # cs = [] @ (p, c) # cs \<and> AList.update p v (kd # cs) = [] @ (p, v) # cs"
      by (cases kd) auto
    then show ?thesis by blast
  next
    case False
    with Cons obtain xs ys where "cs = xs @ (p, c) # ys" "AList.update p v cs = xs @ (p, v) # ys"
      by (cases kd) auto
    with False have "kd # cs = (kd # xs) @ (p, c) # ys
        \<and> AList.update p v (kd # cs) = (kd # xs) @ (p, v) # ys"
      by (cases kd) auto
    then show ?thesis by blast
  qed
qed

lemma update_absent: "map_of cs p = None \<Longrightarrow> AList.update p v cs = cs @ [(p, v)]"
  by (induction cs) (auto split: if_splits)

lemma attach_file_files:
  "set (subtree_files (attach_file node agg ps fm)) = insert fm (set (subtree_files node))
   \<and> length (subtree_files (attach_file node agg ps fm)) = Suc (length (subtree_files node))"
proof (induction ps arbitrary: node agg)
  case Nil
  show ?case by (simp add: subtree_files_sel[of node])
next
  case (Cons p ps)
  let ?agg = "agg @ [p]"
  show ?case
  proof (cases "map_of (children node) p")
    case None
    let ?new = "attach_file (FolderNode (py_join ?agg) p [] []) ?agg ps fm"
    have "attach_file node agg (p # ps) fm
            = FolderNode (path node) (name node) (files node) (children node @ [(p, ?new)])"
      using None by (simp add: Let_def update_absent)
    moreover have "set (subtree_files ?new) = {fm} \<and> length (subtree_files ?new) = Suc 0"
      using Cons.IH[of "FolderNode (py_join ?agg) p [] []" ?agg] by simp
    ultimately show ?thesis by (simp add: subtree_files_sel[of node])
  next
    case (Some c)
    let ?new = "attach_file c ?agg ps fm"
    from update_present[OF Some, of ?new] obtain xs ys where
      xy: "children node = xs @ (p, c) # ys"
          "AList.update p ?new (children node) = xs @ (p, ?new) # ys"
      by blast
    have "attach_file node agg (p # ps) fm
            = FolderNode (path node) (name node) (files node) (xs @ (p, ?new) # ys)"
      using Some xy(2) by (simp add: Let_def)
    moreover have "set (subtree_files ?new) = insert fm (set (subtree_files c))
        \<and> length (subtree_files ?new) = Suc (length (subtree_files c))"
      using Cons.IH[of c ?agg] by simp
    ultimately show ?thesis
      by (auto simp add: subtree_files_sel[of node] xy(1))
  qed
qed

lemma build_tree_step_files:
  "\<exists>fm. source_path fm = rel_path \<and> folder_path fm = folder_of rel_path
        \<and> file_name fm = basename rel_path
        \<and> set (subtree_files (build_tree_step fi t rel_path)) = insert fm (set (subtree_files t))
        \<and> length (subtree_files (build_tree_step fi t rel_path)) = Suc (length (subtree_files t))"
proof -
  let ?fm = "\<lparr>source_path = rel_path, folder_path = folder_of rel_path,
             file_name = basename rel_path,
             description = (case map_of fi (basename rel_path) of
                              None \<Rightarrow> None | Some entry \<Rightarrow> Some (entry_description entry))\<rparr>"
  have "source_path ?fm = rel_path \<and> folder_path ?fm = folder_of rel_path
        \<and> file_name ?fm = basename rel_path
        \<and> set (subtree_files (build_tree_step fi t rel_path)) = insert ?fm (set (subtree_files t))
        \<and> length (subtree_files (build_tree_step fi t rel_path)) = Suc (length (subtree_files t))"
    by (simp add: build_tree_step_def Let_def attach_file_files)
  then show ?thesis by blast
qed

lemma foldl_step_paths:
  "source_path ` set (subtree_files (foldl (build_tree_step fi) t fs))
     = source_path ` set (subtree_files t) \<union> set fs"
proof (induction fs arbitrary: t)
  case Nil
  show ?case by simp
next
  case (Cons x fs)
  from build_tree_step_files[of x fi t] obtain fm where
    "source_path fm = x"
    "set (subtree_files (build_tree_step fi t x)) = insert fm (set (subtree_files t))"
    by blast
  then have "source_path ` set (subtree_files (build_tree_step fi t x))
               = insert x (source_path ` set (subtree_files t))"
    by simp
  with Cons.IH[of "build_tree_step fi t x"] show ?case by simp
qed

lemma foldl_step_length:
  "length (subtree_files (foldl (build_tree_step fi) t fs)) = length (subtree_files t) + length fs"
proof (induction fs arbitrary: t)
  case Nil
  show ?case by simp
next
  case (Cons x fs)
  from build_tree_step_files[of x fi t]
  have "length (subtree_files (build_tree_step fi t x)) = Suc (length (subtree_files t))"
    by blast
  with Cons.IH[of "build_tree_step fi t x"] show ?case by simp
qed

lemma foldl_step_components:
  assumes "\<forall>f \<in> set (subtree_files t).
             folder_path f = folder_of (source_path f) \<and> file_name f = basename (source_path f)"
  shows "\<forall>f \<in> set (subtree_files (foldl (build_tree_step fi) t fs)).
           folder_path f = folder_of (source_path f) \<and> file_name f = basename (source_path f)"
  using assms
proof (induction fs arbitrary: t)
  case Nil
  then show ?case by simp
next
  case (Cons x fs)
  from build_tree_step_files[of x fi t] obtain fm where
    fm: "source_path fm = x" "folder_path fm = folder_of x" "file_name fm = basename x"
    "set (subtree_files (build_tree_step fi t x)) = insert fm (set (subtree_files t))"
    by blast
  have "\<forall>f \<in> set (subtree_files (build_tree_step fi t x)).
          folder_path f = folder_of (source_path f) \<and> file_name f = basename (source_path f)"
    using Cons.prems fm by simp
  from Cons.IH[OF this] show ?case by simp
qed

lemma collect_loop_set:
  "set (collect_loop q acc) = set acc \<union> (\<Union>n \<in> set q. set (subtree_files n))"
proof (induction q acc rule: collect_loop.induct)
  case (1 acc)
  show ?case by simp
next
  case (2 cur queue acc)
  have "set (subtree_files cur)
          = set (files cur) \<union> (\<Union>kc \<in> set (children cur). set (subtree_files (snd kc)))"
    by (subst subtree_files_sel) auto
  with "2.IH" show ?case by auto
qed

lemma collect_loop_length:
  "length (collect_loop q acc) = length acc + sum_list (map (\<lambda>n. length (subtree_files n)) q)"
proof (induction q acc rule: collect_loop.induct)
  case (1 acc)
  show ?case by simp
next
  case (2 cur queue acc)
  have "length (subtree_files cur)
          = length (files cur)
            + sum_list (map (\<lambda>kc. length (subtree_files (snd kc))) (children cur))"
    by (subst subtree_files_sel) (simp add: length_concat comp_def)
  with "2.IH" show ?case by (simp add: comp_def)
qed

lemma collect_all_files_set: "set (collect_all_files node) = set (subtree_files node)"
  by (simp add: collect_all_files_def collect_loop_set del: collect_loop.simps)

lemma collect_all_files_length: "length (collect_all_files node) = length (subtree_files node)"
  by (simp add: collect_all_files_def collect_loop_length del: collect_loop.simps)

lemma build_tree_files:
  "source_path ` set (subtree_files (build_tree files_on_disk file_index)) = set files_on_disk"
  using foldl_step_paths[of file_index "FolderNode ''.'' ''root'' [] []" files_on_disk]
  by (simp add: build_tree_def)

lemma build_tree_count:
  "length (subtree_files (build_tree files_on_disk file_index)) = length files_on_disk"
  using foldl_step_length[of file_index "FolderNode ''.'' ''root'' [] []" files_on_disk]
  by (simp add: build_tree_def)

lemma course_tree_built: "build_tree course_paths [] = course_tree"
  by code_simp

section \<open>The outcomes of one step\<close>

lemma process_file_cases:
  assumes "process_file self f fi s = Inr s'"
  obtains (file_skip) r where
      "classify_file (classifier self) f fi (get_list (ancestor_desc_map s) (folder_path f)) = Inr r"
      "category r = SKIP"
      "s' = s\<lparr>file_calls := file_calls s @ [source_path f],
               file_decisions := AList.update (source_path f) r (file_decisions s)\<rparr>"
  | (file_keep) r where
      "classify_file (classifier self) f fi (get_list (ancestor_desc_map s) (folder_path f)) = Inr r"
      "category r \<noteq> SKIP"
      "s' = s\<lparr>file_calls := file_calls s @ [source_path f],
               file_decisions := AList.update (source_path f) r (file_decisions s),
               classifications :=
                 AList.update (source_path f)
                   (file_record f r (get_list (ancestor_desc_map s) (folder_path f)))
                   (classifications s),
               mappings :=
                 AList.update (source_path f)
                   (mapping_of (category r) (reason r) (source_path f)) (mappings s)\<rparr>"
proof (cases "classify_file (classifier self) f fi (get_list (ancestor_desc_map s) (folder_path f))")
  case (Inl e)
  with assms show ?thesis by (simp add: process_file_def Let_def)
next
  case (Inr r)
  show ?thesis
  proof (cases "category r = SKIP")
    case True
    with assms Inr have "s' = s\<lparr>file_calls := file_calls s @ [source_path f],
               file_decisions := AList.update (source_path f) r (file_decisions s)\<rparr>"
      by (simp add: process_file_def Let_def)
    with Inr True show ?thesis by (rule file_skip)
  next
    case False
    with assms Inr have "s' = s\<lparr>file_calls := file_calls s @ [source_path f],
               file_decisions := AList.update (source_path f) r (file_decisions s),
               classifications :=
                 AList.update (source_path f)
                   (file_record f r (get_list (ancestor_desc_map s) (folder_path f)))
                   (classifications s),
               mappings :=
                 AList.update (source_path f)
                   (mapping_of (category r) (reason r) (source_path f)) (mappings s)\<rparr>"
      by (simp add: process_file_def Let_def file_record_def mapping_of_def)
    with Inr False show ?thesis by (rule file_keep)
  qed
qed

lemma process_folder_cases:
  assumes "process_folder self n fi s = Inr s'"
  obtains (folder_skip) r where
      "folder_answer self n fi s = Inr r"
      "category r = SKIP" "confidence r \<ge> confidence_threshold self"
      "s' = s\<lparr>folder_calls := folder_calls s @ [path n],
               folder_decisions := AList.update (path n) r (folder_decisions s),
               skipped_folders := skipped_folders s @ [path n],
               classifications :=
                 AList.update (path n)
                   (folder_record n r [] (get_list (ancestor_desc_map s) (path n)))
                   (classifications s)\<rparr>"
  | (folder_descend) r where
      "folder_answer self n fi s = Inr r"
      "\<not> (category r = SKIP \<and> confidence r \<ge> confidence_threshold self)"
      "confidence r < confidence_threshold self \<or> is_mixed r \<or> category r = SKIP"
      "s' = descend n (child_ancestors_of r (get_list (ancestor_desc_map s) (path n)))
              (s\<lparr>folder_calls := folder_calls s @ [path n],
                 folder_decisions := AList.update (path n) r (folder_decisions s),
                 skipped_folders :=
                   (if category r = SKIP then skipped_folders s @ [path n]
                    else skipped_folders s),
                 classifications :=
                   AList.update (path n)
                     (folder_record n r '' [descended]'' (get_list (ancestor_desc_map s) (path n)))
                     (classifications s)\<rparr>)"
  | (folder_assign) r s4 where
      "folder_answer self n fi s = Inr r"
      "category r \<noteq> SKIP" "confidence r \<ge> confidence_threshold self" "\<not> is_mixed r"
      "propagate self n r (collect_all_files n)
         (s\<lparr>folder_calls := folder_calls s @ [path n],
            folder_decisions := AList.update (path n) r (folder_decisions s),
            classifications :=
              AList.update (path n)
                (folder_record n r [] (get_list (ancestor_desc_map s) (path n)))
                (classifications s)\<rparr>) = Inr s4"
      "s' = foldl (assign_file n r (child_ancestors_of r (get_list (ancestor_desc_map s) (path n))))
              s4 (collect_all_files n)"
proof (cases "folder_answer self n fi s")
  case (Inl e)
  with assms process_folder_error[OF Inl] show ?thesis by simp
next
  case (Inr r)
  show ?thesis
  proof (cases "category r = SKIP \<and> confidence r \<ge> confidence_threshold self")
    case True
    with process_folder_skip[OF Inr refl] assms Inr show ?thesis
      by (intro folder_skip[of r]) simp_all
  next
    case nskip: False
    show ?thesis
    proof (cases "confidence r < confidence_threshold self \<or> is_mixed r \<or> category r = SKIP")
      case True
      with process_folder_descend[OF Inr refl nskip True] assms Inr nskip show ?thesis
        by (intro folder_descend[of r]) simp_all
    next
      case False
      then have c: "category r \<noteq> SKIP" "confidence r \<ge> confidence_threshold self" "\<not> is_mixed r"
        by simp_all
      from process_folder_assign[OF Inr refl c] assms
      obtain s4 where
        "propagate self n r (collect_all_files n)
         (s\<lparr>folder_calls := folder_calls s @ [path n],
            folder_decisions := AList.update (path n) r (folder_decisions s),
            classifications :=
              AList.update (path n)
                (folder_record n r [] (get_list (ancestor_desc_map s) (path n)))
                (classifications s)\<rparr>) = Inr s4"
        "s' = foldl (assign_file n r (child_ancestors_of r (get_list (ancestor_desc_map s) (path n))))
              s4 (collect_all_files n)"
        by (auto split: sum.splits)
      with Inr c show ?thesis by (intro folder_assign[of r s4]) simp_all
    qed
  qed
qed

section \<open>Invariants of the loop\<close>

lemma bfs_loop_unfold_empty: "task_queue s = [] \<Longrightarrow> bfs_loop self fi s = Inr s"
  by (subst bfs_loop.simps) simp

lemma bfs_loop_unfold_seen:
  "task_queue s = it # rest \<Longrightarrow> item_key it \<in> seen s \<Longrightarrow>
     bfs_loop self fi s = bfs_loop self fi (s\<lparr>task_queue := rest\<rparr>)"
  by (subst bfs_loop.simps) (simp add: Let_def)

lemma bfs_loop_unfold_new:
  "task_queue s = it # rest \<Longrightarrow> item_key it \<notin> seen s \<Longrightarrow>
     bfs_loop self fi s =
       (case process_item self it fi (s\<lparr>task_queue := rest, seen := insert (item_key it) (seen s)\<rparr>) of
          Inl es \<Rightarrow> Inl es
        | Inr s2 \<Rightarrow> bfs_loop self fi s2)"
  by (subst bfs_loop.simps) (simp add: Let_def)

lemma bfs_loop_invariant:
  assumes "bfs_loop self fi s = Inr s'" and "I s"
    and "\<And>s it rest. I s \<Longrightarrow> task_queue s = it # rest \<Longrightarrow> item_key it \<in> seen s
                 \<Longrightarrow> I (s\<lparr>task_queue := rest\<rparr>)"
    and "\<And>s it rest s2. I s \<Longrightarrow> task_queue s = it # rest \<Longrightarrow> item_key it \<notin> seen s
                 \<Longrightarrow> process_item self it fi
                       (s\<lparr>task_queue := rest, seen := insert (item_key it) (seen s)\<rparr>) = Inr s2
                 \<Longrightarrow> I s2"
  shows "I s' \<and> task_queue s' = []"
  using assms
proof (induction self fi s rule: bfs_loop.induct)
  case (1 self fi s)
  note skip = "1.prems"(3) and step = "1.prems"(4)
  show ?case
  proof (cases "task_queue s")
    case Nil
    with "1.prems"(1,2) bfs_loop_unfold_empty[OF Nil, of self fi] show ?thesis by simp
  next
    case (Cons it rest)
    show ?thesis
    proof (cases "item_key it \<in> seen s")
      case True
      from "1.prems"(1) bfs_loop_unfold_seen[OF Cons True, of self fi]
      have r: "bfs_loop self fi (s\<lparr>task_queue := rest\<rparr>) = Inr s'" by simp
      from skip[OF "1.prems"(2) Cons True] have i: "I (s\<lparr>task_queue := rest\<rparr>)" .
      from True have t: "item_key it \<in> seen (s\<lparr>task_queue := rest\<rparr>)" by simp
      show ?thesis by (rule "1.IH"(1)[OF Cons refl t r i skip step])
    next
      case False
      let ?s1 = "s\<lparr>task_queue := rest, seen := insert (item_key it) (seen s)\<rparr>"
      from "1.prems"(1) bfs_loop_unfold_new[OF Cons False, of self fi]
      obtain s2 where p: "process_item self it fi ?s1 = Inr s2"
        and r: "bfs_loop self fi s2 = Inr s'"
        by (auto split: sum.splits)
      from step[OF "1.prems"(2) Cons False p] have i: "I s2" .
      from False have t: "item_key it \<notin> seen (s\<lparr>task_queue := rest\<rparr>)" by simp
      from p have p': "process_item self it fi
          (s\<lparr>task_queue := rest\<rparr>\<lparr>seen := insert (item_key it) (seen (s\<lparr>task_queue := rest\<rparr>))\<rparr>) = Inr s2"
        by simp
      show ?thesis by (rule "1.IH"(2)[OF Cons refl t p' r i skip step])
    qed
  qed
qed


section \<open>One classification call per path\<close>






section \<open>The frontier of the traversal\<close>

lemma subtree_items_sel: "subtree_items n = Folder n # below n"
  by (cases n) (simp add: below_def)

lemma item_items_head: "\<exists>rest. item_items it = it # rest"
  by (cases it) (simp_all add: subtree_items_sel)

lemma kids_items_set: "set (concat (map item_items (kids n))) = set (below n)"
  by (auto simp: kids_def below_def)

lemma kids_items_distinct:
  "distinct (map item_key (below n)) \<Longrightarrow> distinct (map item_key (concat (map item_items (kids n))))"
proof -
  have "concat (map item_items (kids n))
          = concat (map (\<lambda>kc. subtree_items (snd kc)) (children n)) @ map File (files n)"
    by (simp add: kids_def comp_def)
  then show "distinct (map item_key (below n)) \<Longrightarrow> ?thesis"
    by (auto simp: below_def)
qed

lemma file_in_subtree_items: "File f \<in> set (subtree_items n) \<longleftrightarrow> f \<in> set (subtree_files n)"
  by (induction n rule: subtree_items.induct) auto

lemma collected_files_below:
  "f \<in> set (collect_all_files n) \<Longrightarrow> File f \<in> set (below n)"
  using file_in_subtree_items[of f n]
  by (simp add: collect_all_files_set subtree_items_sel)

lemma foldl_assign_dom:
  "fst ` set (mappings (foldl (assign_file n r ca) s fs))
     = fst ` set (mappings s) \<union> source_path ` set fs"
  "fst ` set (classifications (foldl (assign_file n r ca) s fs))
     = fst ` set (classifications s) \<union> source_path ` set fs"
  by (induction fs arbitrary: s;
      auto simp: assign_file_mappings assign_file_classifications dom_update)+

lemma process_item_effect:
  assumes "process_item self it fi s = Inr s'"
  shows "seen s' = seen s
    \<and> fst ` set (folder_decisions s') \<subseteq> insert (item_key it) (fst ` set (folder_decisions s))
    \<and> fst ` set (file_decisions s') \<subseteq> insert (item_key it) (fst ` set (file_decisions s))
    \<and> fst ` set (propagations s') \<subseteq> insert (item_key it) (fst ` set (propagations s))
    \<and> ((task_queue s' = task_queue s
         \<and> fst ` set (classifications s')
              \<subseteq> fst ` set (classifications s) \<union> item_key ` set (item_items it)
         \<and> fst ` set (mappings s')
              \<subseteq> fst ` set (mappings s) \<union> item_key ` set (item_items it))
       \<or> (\<exists>n. it = Folder n \<and> task_queue s' = task_queue s @ kids n
              \<and> fst ` set (classifications s') \<subseteq> insert (path n) (fst ` set (classifications s))
              \<and> mappings s' = mappings s))"
proof (cases it)
  case (File f)
  with assms have "process_file self f fi s = Inr s'" by (simp add: process_item_def)
  then show ?thesis
    by (cases rule: process_file_cases) (auto simp: File dom_update)
next
  case (Folder n)
  with assms have pf: "process_folder self n fi s = Inr s'" by (simp add: process_item_def)
  have files: "source_path ` set (collect_all_files n) \<subseteq> item_key ` set (subtree_items n)"
  proof
    fix k assume "k \<in> source_path ` set (collect_all_files n)"
    then obtain f where "f \<in> set (collect_all_files n)" "k = source_path f" by blast
    with collected_files_below[of f n] have "File f \<in> set (subtree_items n)" "item_key (File f) = k"
      by (simp_all add: subtree_items_sel)
    then show "k \<in> item_key ` set (subtree_items n)" by (metis imageI)
  qed
  have self_key: "path n \<in> item_key ` set (subtree_items n)"
    by (simp add: subtree_items_sel)
  from pf show ?thesis
  proof (cases rule: process_folder_cases)
    case (folder_skip r)
    with self_key show ?thesis by (auto simp: Folder dom_update)
  next
    case (folder_descend r)
    then show ?thesis by (auto simp: Folder dom_update descend_frame kids_def)
  next
    case (folder_assign r s4)
    let ?anc = "get_list (ancestor_desc_map s) (path n)"
    from propagate_cases[OF folder_assign(5)]
    have s4: "seen s4 = seen s" "task_queue s4 = task_queue s" "mappings s4 = mappings s"
      "file_decisions s4 = file_decisions s"
      "folder_decisions s4 = AList.update (path n) r (folder_decisions s)"
      "classifications s4 = AList.update (path n) (folder_record n r [] ?anc) (classifications s)"
      "fst ` set (propagations s4) \<subseteq> insert (path n) (fst ` set (propagations s))"
      by auto
    have a: "seen s' = seen s" "task_queue s' = task_queue s"
      "file_decisions s' = file_decisions s"
      "folder_decisions s' = AList.update (path n) r (folder_decisions s)"
      "propagations s' = propagations s4"
      by (simp_all add: folder_assign(6) foldl_assign_frame s4)
    have b: "fst ` set (mappings s') = fst ` set (mappings s) \<union> source_path ` set (collect_all_files n)"
      "fst ` set (classifications s')
         = insert (path n) (fst ` set (classifications s)) \<union> source_path ` set (collect_all_files n)"
      by (simp_all add: folder_assign(6) foldl_assign_dom s4 dom_update)
    have c: "fst ` set (classifications s')
              \<subseteq> fst ` set (classifications s) \<union> item_key ` set (item_items it)"
      "fst ` set (mappings s') \<subseteq> fst ` set (mappings s) \<union> item_key ` set (item_items it)"
      using b files self_key by (auto simp: Folder)
    have d: "fst ` set (folder_decisions s') \<subseteq> insert (item_key it) (fst ` set (folder_decisions s))"
      "fst ` set (propagations s') \<subseteq> insert (item_key it) (fst ` set (propagations s))"
      using a s4(7) by (auto simp: Folder dom_update)
    from a(1,2,3) c d show ?thesis by auto
  qed
qed

lemma subset_insert_trans: "A \<subseteq> insert x B \<Longrightarrow> B \<subseteq> S \<Longrightarrow> A \<subseteq> insert x S"
  by blast

lemma notin_subset_Un: "k \<notin> A \<Longrightarrow> k \<notin> B \<Longrightarrow> C \<subseteq> A \<union> B \<Longrightarrow> k \<notin> C"
  by blast

lemma notin_subset_insert: "k \<noteq> x \<Longrightarrow> k \<notin> A \<Longrightarrow> C \<subseteq> insert x A \<Longrightarrow> k \<notin> C"
  by blast

lemma pending_items_queue:
  "task_queue s = q \<Longrightarrow> pending_items s = concat (map item_items q)"
  by (simp add: pending_items_def)

lemma frontier_initial:
  assumes "distinct_paths t"
  shows "frontier t (initial_state t)"
  using assms
  by (simp add: frontier_def distinct_paths_def root_items_def pending_items_def)
    (simp add: initial_state_def)

lemma frontier_skip:
  assumes "frontier t s" and "task_queue s = it # rest"
  shows "frontier t (s\<lparr>task_queue := rest\<rparr>)"
proof -
  have p: "pending_items s = item_items it @ pending_items (s\<lparr>task_queue := rest\<rparr>)"
    using assms(2) by (simp add: pending_items_def)
  from assms(1) show ?thesis
    unfolding frontier_def p by auto
qed

lemma frontier_step:
  assumes fr: "frontier t s" and q: "task_queue s = it # rest" and new: "item_key it \<notin> seen s"
    and pr: "process_item self it fi
               (s\<lparr>task_queue := rest, seen := insert (item_key it) (seen s)\<rparr>) = Inr s2"
  shows "frontier t s2"
proof -
  define P where "P = concat (map item_items rest)"
  obtain B where B: "item_items it = it # B" using item_items_head[of it] by blast
  define KB where "KB = item_key ` set B"
  define KP where "KP = item_key ` set P"
  have p: "pending_items s = it # B @ P"
    using q B by (simp add: pending_items_def P_def)
  have keys: "item_key ` set (it # B @ P) = insert (item_key it) (KB \<union> KP)"
    by (simp add: KB_def KP_def image_Un)
  note f = fr[unfolded frontier_def p keys]
  from f have d: "distinct (map item_key (it # B @ P))" by (rule conjunct1)
  from f have sub: "set (it # B @ P) \<subseteq> set (root_items t)"
    by (rule conjunct2[THEN conjunct1])
  from f have fresh: "\<forall>k \<in> insert (item_key it) (KB \<union> KP).
            k \<notin> seen s \<and> k \<notin> fst ` set (classifications s) \<and> k \<notin> fst ` set (mappings s)"
    by (rule conjunct2[THEN conjunct2, THEN conjunct1])
  from f have "fst ` set (folder_decisions s) \<subseteq> seen s
      \<and> fst ` set (file_decisions s) \<subseteq> seen s \<and> fst ` set (propagations s) \<subseteq> seen s"
    by (rule conjunct2[THEN conjunct2, THEN conjunct2])
  then have dec: "fst ` set (folder_decisions s) \<subseteq> seen s"
    "fst ` set (file_decisions s) \<subseteq> seen s" "fst ` set (propagations s) \<subseteq> seen s"
    by simp_all
  from d have dk: "item_key it \<notin> KB" "item_key it \<notin> KP"
    "distinct (map item_key B)" "distinct (map item_key P)" "KB \<inter> KP = {}"
    by (auto simp: KB_def KP_def)
  note eff = process_item_effect[OF pr]
  from eff have seen2: "seen s2 = insert (item_key it) (seen s)" by simp
  from eff have grow:
    "fst ` set (folder_decisions s2) \<subseteq> insert (item_key it) (fst ` set (folder_decisions s))"
    "fst ` set (file_decisions s2) \<subseteq> insert (item_key it) (fst ` set (file_decisions s))"
    "fst ` set (propagations s2) \<subseteq> insert (item_key it) (fst ` set (propagations s))"
    by simp_all
  have dec2: "fst ` set (folder_decisions s2) \<subseteq> seen s2"
    "fst ` set (file_decisions s2) \<subseteq> seen s2" "fst ` set (propagations s2) \<subseteq> seen s2"
    unfolding seen2
    by (rule subset_insert_trans[OF grow(1) dec(1)], rule subset_insert_trans[OF grow(2) dec(2)],
        rule subset_insert_trans[OF grow(3) dec(3)])
  have itk: "item_key ` set (item_items it) = insert (item_key it) KB"
    by (simp add: B KB_def)
  from eff consider
    (terminal) "task_queue s2 = rest"
      "fst ` set (classifications s2)
         \<subseteq> fst ` set (classifications s) \<union> insert (item_key it) KB"
      "fst ` set (mappings s2) \<subseteq> fst ` set (mappings s) \<union> insert (item_key it) KB"
    | (descended) n where "it = Folder n" "task_queue s2 = rest @ kids n"
      "fst ` set (classifications s2) \<subseteq> insert (item_key it) (fst ` set (classifications s))"
      "mappings s2 = mappings s"
    unfolding itk by auto
  then show ?thesis
  proof cases
    case terminal
    have p2: "pending_items s2 = P" using terminal(1) by (simp add: pending_items_def P_def)
    have "\<forall>k \<in> KP.
            k \<notin> seen s2 \<and> k \<notin> fst ` set (classifications s2) \<and> k \<notin> fst ` set (mappings s2)"
    proof
      fix k assume k: "k \<in> KP"
      with fresh have a: "k \<notin> seen s" "k \<notin> fst ` set (classifications s)"
        "k \<notin> fst ` set (mappings s)" by blast+
      from k dk(2,5) have b: "k \<notin> insert (item_key it) KB" by blast
      from a(1) b have "k \<notin> seen s2" unfolding seen2 by blast
      moreover have "k \<notin> fst ` set (classifications s2)"
        by (rule notin_subset_Un[OF a(2) b terminal(2)])
      moreover have "k \<notin> fst ` set (mappings s2)"
        by (rule notin_subset_Un[OF a(3) b terminal(3)])
      ultimately show "k \<notin> seen s2 \<and> k \<notin> fst ` set (classifications s2)
                       \<and> k \<notin> fst ` set (mappings s2)"
        by blast
    qed
    moreover from sub have "set P \<subseteq> set (root_items t)" by simp
    ultimately show ?thesis
      unfolding frontier_def p2 KP_def using dk(4) dec2 by blast
  next
    case (descended n)
    have Bn: "B = below n" using B descended(1) by (simp add: subtree_items_sel)
    define K where "K = concat (map item_items (kids n))"
    have p2: "pending_items s2 = P @ K"
      using descended(2) by (simp add: pending_items_def P_def K_def)
    have ks: "set K = set B" using kids_items_set[of n] Bn by (simp add: K_def)
    have kd: "distinct (map item_key K)" using kids_items_distinct[of n] dk(3) Bn by (simp add: K_def)
    have kk: "item_key ` set K = KB" using ks by (simp add: KB_def)
    have d2: "distinct (map item_key (P @ K))"
      using dk(4,5) kd kk by (simp add: KP_def Int_commute)
    have sub2: "set (P @ K) \<subseteq> set (root_items t)" using sub ks by simp
    have keys2: "item_key ` set (P @ K) = KP \<union> KB"
      using kk by (simp add: image_Un KP_def)
    have "\<forall>k \<in> KP \<union> KB.
            k \<notin> seen s2 \<and> k \<notin> fst ` set (classifications s2) \<and> k \<notin> fst ` set (mappings s2)"
    proof
      fix k assume k: "k \<in> KP \<union> KB"
      with fresh have a: "k \<notin> seen s" "k \<notin> fst ` set (classifications s)"
        "k \<notin> fst ` set (mappings s)" by blast+
      from k dk(1,2) have b: "k \<noteq> item_key it" by blast
      from a(1) b have "k \<notin> seen s2" unfolding seen2 by blast
      moreover have "k \<notin> fst ` set (classifications s2)"
        by (rule notin_subset_insert[OF b a(2) descended(3)])
      moreover have "k \<notin> fst ` set (mappings s2)"
        using a(3) descended(4) by simp
      ultimately show "k \<notin> seen s2 \<and> k \<notin> fst ` set (classifications s2)
                       \<and> k \<notin> fst ` set (mappings s2)"
        by blast
    qed
    with d2 sub2 dec2 show ?thesis
      unfolding frontier_def p2 keys2 by blast
  qed
qed

lemma distinct_paths_inj:
  assumes "distinct_paths t" and "a \<in> set (root_items t)" and "b \<in> set (root_items t)"
    and "item_key a = item_key b"
  shows "a = b"
proof -
  from assms(1) have "inj_on item_key (set (root_items t))"
    by (simp add: distinct_paths_def distinct_map)
  then show ?thesis using assms(4,2,3) by (rule inj_onD)
qed

lemma frontier_run:
  assumes "distinct_paths t" and "bfs_run self t fi = Inr s'"
  shows "frontier t s'"
proof -
  have "frontier t s' \<and> task_queue s' = []"
  proof (rule bfs_loop_invariant[where I = "frontier t" and self = self and fi = fi])
    show "bfs_loop self fi (initial_state t) = Inr s'"
      using assms(2) by (simp add: bfs_run_def)
    show "frontier t (initial_state t)" by (rule frontier_initial[OF assms(1)])
  next
    fix s :: bfs_state and it rest
    assume "frontier t s" "task_queue s = it # rest"
    then show "frontier t (s\<lparr>task_queue := rest\<rparr>)" by (rule frontier_skip)
  next
    fix s s2 :: bfs_state and it rest
    assume "frontier t s" "task_queue s = it # rest" "item_key it \<notin> seen s"
      "process_item self it fi
         (s\<lparr>task_queue := rest, seen := insert (item_key it) (seen s)\<rparr>) = Inr s2"
    then show "frontier t s2" by (rule frontier_step)
  qed
  then show ?thesis by simp
qed

section \<open>What one step leaves alone\<close>

lemma process_item_queue:
  assumes "process_item self it fi s = Inr s'"
  shows "task_queue s' = task_queue s \<or> (\<exists>n. it = Folder n \<and> task_queue s' = task_queue s @ kids n)"
proof (cases it)
  case (File f)
  with assms have "process_file self f fi s = Inr s'" by (simp add: process_item_def)
  then show ?thesis by (simp add: process_file_queue)
next
  case (Folder n)
  with assms have "process_folder self n fi s = Inr s'" by (simp add: process_item_def)
  from process_folder_queue[OF this] Folder show ?thesis by (simp add: kids_def)
qed

lemma process_item_pending:
  assumes "process_item self it fi s = Inr s'"
  shows "set (pending_items s') \<subseteq> set (item_items it) \<union> set (pending_items s)"
proof -
  from process_item_queue[OF assms] show ?thesis
  proof
    assume "task_queue s' = task_queue s"
    then show ?thesis by (simp add: pending_items_def)
  next
    assume "\<exists>n. it = Folder n \<and> task_queue s' = task_queue s @ kids n"
    then obtain n where n: "it = Folder n" "task_queue s' = task_queue s @ kids n" by blast
    have k: "set (concat (map item_items (kids n))) \<subseteq> set (subtree_items n)"
      using kids_items_set[of n] by (simp add: subtree_items_sel subset_insertI2)
    have "pending_items s' = pending_items s @ concat (map item_items (kids n))"
      using n(2) by (simp add: pending_items_def)
    then have "set (pending_items s') = set (pending_items s) \<union> set (concat (map item_items (kids n)))"
      by (simp only: set_append)
    with k n(1) show ?thesis by auto
  qed
qed

lemma foldl_assign_other:
  assumes "k \<notin> source_path ` set fs"
  shows "map_of (classifications (foldl (assign_file n r ca) s fs)) k = map_of (classifications s) k"
    and "map_of (mappings (foldl (assign_file n r ca) s fs)) k = map_of (mappings s) k"
  using assms by (simp_all add: foldl_assign_classifications foldl_assign_mappings)

lemma collected_keys_below:
  "source_path ` set (collect_all_files n) \<subseteq> item_key ` set (below n)"
proof
  fix k assume "k \<in> source_path ` set (collect_all_files n)"
  then obtain f where f: "f \<in> set (collect_all_files n)" "k = source_path f" by blast
  from collected_files_below[OF f(1)] have "File f \<in> set (below n)" .
  then have "item_key (File f) \<in> item_key ` set (below n)" by (rule imageI)
  with f(2) show "k \<in> item_key ` set (below n)" by simp
qed

lemma process_item_frame:
  assumes "process_item self it fi s = Inr s'" and "k \<notin> item_key ` set (item_items it)"
  shows "map_of (classifications s') k = map_of (classifications s) k"
    and "map_of (mappings s') k = map_of (mappings s) k"
proof -
  have "map_of (classifications s') k = map_of (classifications s) k
        \<and> map_of (mappings s') k = map_of (mappings s) k"
  proof (cases it)
    case (File f)
    with assms(1) have "process_file self f fi s = Inr s'" by (simp add: process_item_def)
    then show ?thesis
      using assms(2) by (cases rule: process_file_cases) (auto simp: File update_conv')
  next
    case (Folder n)
    with assms(1) have pf: "process_folder self n fi s = Inr s'" by (simp add: process_item_def)
    from assms(2) Folder have k: "k \<noteq> path n" "k \<notin> item_key ` set (below n)"
      by (simp_all add: subtree_items_sel)
    from k(2) collected_keys_below[of n] have kf: "k \<notin> source_path ` set (collect_all_files n)"
      by blast
    from pf show ?thesis
    proof (cases rule: process_folder_cases)
      case (folder_skip r)
      with k(1) show ?thesis by (simp add: update_conv')
    next
      case (folder_descend r)
      with k(1) show ?thesis by (simp add: update_conv' descend_frame)
    next
      case (folder_assign r s4)
      from propagate_cases[OF folder_assign(5)]
      have "classifications s4 = AList.update (path n)
              (folder_record n r [] (get_list (ancestor_desc_map s) (path n))) (classifications s)"
        "mappings s4 = mappings s"
        by auto
      with k(1) kf folder_assign(6) show ?thesis
        by (simp add: foldl_assign_other update_conv')
    qed
  qed
  then show "map_of (classifications s') k = map_of (classifications s) k"
    and "map_of (mappings s') k = map_of (mappings s) k"
    by simp_all
qed

lemma process_item_decisions_frame:
  assumes "process_item self it fi s = Inr s'" and "k \<noteq> item_key it"
  shows "map_of (folder_decisions s') k = map_of (folder_decisions s) k"
    and "map_of (file_decisions s') k = map_of (file_decisions s) k"
proof -
  have "map_of (folder_decisions s') k = map_of (folder_decisions s) k
        \<and> map_of (file_decisions s') k = map_of (file_decisions s) k"
  proof (cases it)
    case (File f)
    with assms(1) have "process_file self f fi s = Inr s'" by (simp add: process_item_def)
    then show ?thesis
      using assms(2) by (cases rule: process_file_cases) (auto simp: File update_conv')
  next
    case (Folder n)
    with assms(1) have pf: "process_folder self n fi s = Inr s'" by (simp add: process_item_def)
    from assms(2) Folder have k: "k \<noteq> path n" by simp
    from pf show ?thesis
    proof (cases rule: process_folder_cases)
      case (folder_skip r)
      with k show ?thesis by (simp add: update_conv')
    next
      case (folder_descend r)
      with k show ?thesis by (simp add: update_conv' descend_frame)
    next
      case (folder_assign r s4)
      from propagate_cases[OF folder_assign(5)]
      have "folder_decisions s4 = AList.update (path n) r (folder_decisions s)"
        "file_decisions s4 = file_decisions s"
        by auto
      with k folder_assign(6) show ?thesis
        by (simp add: foldl_assign_frame update_conv')
    qed
  qed
  then show "map_of (folder_decisions s') k = map_of (folder_decisions s) k"
    and "map_of (file_decisions s') k = map_of (file_decisions s) k"
    by simp_all
qed

text \<open>The facts about a step from a state of the frontier invariant that every argument below uses.\<close>

lemma frontier_step_facts:
  assumes fr: "frontier t s" and q: "task_queue s = it # rest"
    and pr: "process_item self it fi
               (s\<lparr>task_queue := rest, seen := insert (item_key it) (seen s)\<rparr>) = Inr s2"
  shows "it \<in> set (root_items t)"
    and "set (item_items it) \<subseteq> set (root_items t)"
    and "item_key ` set (item_items it) \<subseteq> item_key ` set (pending_items s)"
    and "item_key ` set (pending_items s2) \<subseteq> item_key ` set (pending_items s)"
    and "seen s2 = insert (item_key it) (seen s)"
    and "\<And>k. k \<in> seen s \<Longrightarrow> k \<notin> item_key ` set (item_items it)"
    and "\<And>k. k \<in> item_key ` set (pending_items s) \<Longrightarrow>
              map_of (classifications s) k = None \<and> map_of (mappings s) k = None"
proof -
  obtain B where B: "item_items it = it # B" using item_items_head[of it] by blast
  have p: "pending_items s = item_items it @ concat (map item_items rest)"
    using q by (simp add: pending_items_def)
  have p1: "pending_items (s\<lparr>task_queue := rest, seen := insert (item_key it) (seen s)\<rparr>)
              = concat (map item_items rest)"
    by (simp add: pending_items_def)
  note f = fr[unfolded frontier_def]
  from f have sub: "set (pending_items s) \<subseteq> set (root_items t)"
    by (rule conjunct2[THEN conjunct1])
  from f have fresh: "\<forall>k \<in> item_key ` set (pending_items s).
            k \<notin> seen s \<and> k \<notin> fst ` set (classifications s) \<and> k \<notin> fst ` set (mappings s)"
    by (rule conjunct2[THEN conjunct2, THEN conjunct1])
  from sub p show a: "set (item_items it) \<subseteq> set (root_items t)" by simp
  with B show "it \<in> set (root_items t)" by simp
  from p show c: "item_key ` set (item_items it) \<subseteq> item_key ` set (pending_items s)"
    by (simp add: image_Un)
  from process_item_pending[OF pr] p p1
  have "set (pending_items s2) \<subseteq> set (pending_items s)" by auto
  then show "item_key ` set (pending_items s2) \<subseteq> item_key ` set (pending_items s)"
    by (rule image_mono)
  from process_item_effect[OF pr] show "seen s2 = insert (item_key it) (seen s)" by simp
  show "\<And>k. k \<in> seen s \<Longrightarrow> k \<notin> item_key ` set (item_items it)"
    using fresh c by blast
  show "\<And>k. k \<in> item_key ` set (pending_items s) \<Longrightarrow>
              map_of (classifications s) k = None \<and> map_of (mappings s) k = None"
  proof -
    fix k assume "k \<in> item_key ` set (pending_items s)"
    with fresh have "k \<notin> fst ` set (classifications s)" "k \<notin> fst ` set (mappings s)"
      by blast+
    then show "map_of (classifications s) k = None \<and> map_of (mappings s) k = None"
      by (simp only: map_of_eq_None_iff simp_thms)
  qed
qed

section \<open>Pruned subtrees\<close>

lemma pruned_ok_skip:
  assumes "pruned_ok self t s" and "task_queue s = it # rest"
  shows "pruned_ok self t (s\<lparr>task_queue := rest\<rparr>)"
proof -
  have "item_key ` set (pending_items (s\<lparr>task_queue := rest\<rparr>)) \<subseteq> item_key ` set (pending_items s)"
    using assms(2) by (auto simp: pending_items_def)
  with assms(1) show ?thesis
    unfolding pruned_ok_def pruned_def by (simp add: subset_iff) blast
qed

lemma frontier_visited:
  assumes "frontier t s"
  shows "fst ` set (folder_decisions s) \<subseteq> seen s"
    and "fst ` set (file_decisions s) \<subseteq> seen s"
    and "fst ` set (propagations s) \<subseteq> seen s"
proof -
  from assms[unfolded frontier_def]
  have "fst ` set (folder_decisions s) \<subseteq> seen s
      \<and> fst ` set (file_decisions s) \<subseteq> seen s \<and> fst ` set (propagations s) \<subseteq> seen s"
    by (rule conjunct2[THEN conjunct2, THEN conjunct2])
  then show "fst ` set (folder_decisions s) \<subseteq> seen s"
    and "fst ` set (file_decisions s) \<subseteq> seen s"
    and "fst ` set (propagations s) \<subseteq> seen s"
    by simp_all
qed

lemma frontier_fresh:
  assumes "frontier t s" and "k \<in> item_key ` set (pending_items s)"
  shows "k \<notin> seen s" and "k \<notin> fst ` set (classifications s)"
    and "k \<notin> fst ` set (mappings s)"
proof -
  from assms(1)[unfolded frontier_def]
  have "\<forall>k \<in> item_key ` set (pending_items s).
          k \<notin> seen s \<and> k \<notin> fst ` set (classifications s) \<and> k \<notin> fst ` set (mappings s)"
    by (rule conjunct2[THEN conjunct2, THEN conjunct1])
  from bspec[OF this assms(2)]
  show "k \<notin> seen s" and "k \<notin> fst ` set (classifications s)"
    and "k \<notin> fst ` set (mappings s)"
    by simp_all
qed

lemma frontier_distinct:
  assumes "frontier t s" and "task_queue s = it # rest" and "item_items it = it # B"
  shows "item_key it \<notin> item_key ` set B"
    and "item_key ` set B \<inter> item_key ` set (concat (map item_items rest)) = {}"
proof -
  define P where "P = concat (map item_items rest)"
  have p: "pending_items s = it # B @ P"
    using assms(2,3) by (simp add: pending_items_def P_def)
  from assms(1)[unfolded frontier_def p] have "distinct (map item_key (it # B @ P))"
    by (rule conjunct1)
  then show "item_key it \<notin> item_key ` set B"
    and "item_key ` set B \<inter> item_key ` set (concat (map item_items rest)) = {}"
    unfolding P_def[symmetric] by auto
qed

lemma map_of_in_keys: "map_of al k = Some v \<Longrightarrow> k \<in> fst ` set al"
  by (metis map_of_eq_None_iff option.distinct(1))

lemma pruned_ok_step:
  assumes dp: "distinct_paths t" and fr: "frontier t s" and inv: "pruned_ok self t s"
    and q: "task_queue s = it # rest" and new: "item_key it \<notin> seen s"
    and pr: "process_item self it fi
               (s\<lparr>task_queue := rest, seen := insert (item_key it) (seen s)\<rparr>) = Inr s2"
  shows "pruned_ok self t s2"
  unfolding pruned_ok_def
proof (intro allI impI)
  fix X r
  assume X: "Folder X \<in> set (root_items t)"
    and fd2: "map_of (folder_decisions s2) (path X) = Some r"
    and cs: "confident_skip self r"
  let ?s1 = "s\<lparr>task_queue := rest, seen := insert (item_key it) (seen s)\<rparr>"
  note sf = frontier_step_facts[OF fr q pr]
  note vis = frontier_visited[OF fr]
  show "pruned X r s2"
  proof (cases "path X = item_key it")
    case True
    from distinct_paths_inj[OF dp X sf(1)] True have it: "it = Folder X" by simp
    have ii: "item_items it = it # below X" by (simp add: it subtree_items_sel)
    note dk = frontier_distinct[OF fr q ii]
    from pr it have pf: "process_folder self X fi ?s1 = Inr s2" by (simp add: process_item_def)
    from pf show ?thesis
    proof (cases rule: process_folder_cases)
      case (folder_skip r')
      from folder_skip(4) fd2 have rr: "r' = r" by (simp add: update_conv')
      have "map_of (classifications s2) (path X)
              = Some (folder_record X r [] (get_list (ancestor_desc_map s) (path X)))"
        using folder_skip(4) rr by (simp add: update_conv')
      then have a: "\<exists>anc. map_of (classifications s2) (path X) = Some (folder_record X r [] anc)"
        by blast
      have "path X \<notin> fst ` set (propagations s)" using vis(3) new True by auto
      then have b: "path X \<notin> fst ` set (propagations s2)" using folder_skip(4) by simp
      have p2: "pending_items s2 = concat (map item_items rest)"
        using folder_skip(4) by (simp add: pending_items_def)
      have c: "\<forall>k \<in> item_key ` set (below X).
            k \<notin> seen s2 \<and> k \<notin> item_key ` set (pending_items s2)
            \<and> map_of (classifications s2) k = None \<and> map_of (mappings s2) k = None"
      proof
        fix k assume k: "k \<in> item_key ` set (below X)"
        have "item_key it = path X" by (simp add: it)
        with k dk(1) have ne: "k \<noteq> path X" by metis
        from k sf(3) ii have kp: "k \<in> item_key ` set (pending_items s)" by auto
        from frontier_fresh(1)[OF fr kp] ne sf(5) it have k1: "k \<notin> seen s2" by simp
        from k dk(2) have k2: "k \<notin> item_key ` set (pending_items s2)" unfolding p2 by blast
        from sf(7)[OF kp] ne folder_skip(4)
        have k3: "map_of (classifications s2) k = None" "map_of (mappings s2) k = None"
          by (simp_all add: update_conv')
        from k1 k2 k3 show "k \<notin> seen s2 \<and> k \<notin> item_key ` set (pending_items s2)
            \<and> map_of (classifications s2) k = None \<and> map_of (mappings s2) k = None"
          by simp
      qed
      from a b c show ?thesis unfolding pruned_def by simp
    next
      case (folder_descend r')
      from folder_descend(4) fd2 have "r' = r" by (simp add: update_conv' descend_frame)
      with folder_descend(2) cs show ?thesis by (simp add: confident_skip_def)
    next
      case (folder_assign r' s4)
      from propagate_cases[OF folder_assign(5)]
      have "folder_decisions s4 = AList.update (path X) r' (folder_decisions s)" by auto
      with folder_assign(6) fd2 have "r' = r" by (simp add: update_conv' foldl_assign_frame)
      with folder_assign(2) cs show ?thesis by (simp add: confident_skip_def)
    qed
  next
    case False
    from process_item_decisions_frame(1)[OF pr False] fd2
    have fd: "map_of (folder_decisions s) (path X) = Some r" by simp
    with inv X cs have pX: "pruned X r s" unfolding pruned_ok_def by blast
    from map_of_in_keys[OF fd] vis(1) have seenX: "path X \<in> seen s" by blast
    from sf(6)[OF seenX] have nk: "path X \<notin> item_key ` set (item_items it)" .
    from pX obtain anc where anc: "map_of (classifications s) (path X) = Some (folder_record X r [] anc)"
      and np: "path X \<notin> fst ` set (propagations s)"
      and bel: "\<forall>k \<in> item_key ` set (below X).
            k \<notin> seen s \<and> k \<notin> item_key ` set (pending_items s)
            \<and> map_of (classifications s) k = None \<and> map_of (mappings s) k = None"
      unfolding pruned_def by blast
    from process_item_frame(1)[OF pr nk] anc
    have "map_of (classifications s2) (path X) = Some (folder_record X r [] anc)"
      by simp
    then have a: "\<exists>anc. map_of (classifications s2) (path X) = Some (folder_record X r [] anc)"
      by blast
    from process_item_effect[OF pr]
    have "fst ` set (propagations s2) \<subseteq> insert (item_key it) (fst ` set (propagations s))"
      by simp
    with np False have b: "path X \<notin> fst ` set (propagations s2)" by blast
    obtain B where B: "item_items it = it # B" using item_items_head[of it] by blast
    then have itk: "item_key it \<in> item_key ` set (item_items it)" by simp
    have c: "\<forall>k \<in> item_key ` set (below X).
            k \<notin> seen s2 \<and> k \<notin> item_key ` set (pending_items s2)
            \<and> map_of (classifications s2) k = None \<and> map_of (mappings s2) k = None"
    proof
      fix k assume k: "k \<in> item_key ` set (below X)"
      from bspec[OF bel k] have k0: "k \<notin> seen s" "k \<notin> item_key ` set (pending_items s)"
        "map_of (classifications s) k = None" "map_of (mappings s) k = None"
        by simp_all
      from k0(2) sf(3) have nik: "k \<notin> item_key ` set (item_items it)" by (rule contra_subsetD[rotated])
      with itk have "k \<noteq> item_key it" by metis
      with k0(1) sf(5) have k1: "k \<notin> seen s2" by simp
      from k0(2) sf(4) have k2: "k \<notin> item_key ` set (pending_items s2)" by (rule contra_subsetD[rotated])
      from process_item_frame[OF pr nik] k0(3,4)
      have k3: "map_of (classifications s2) k = None" "map_of (mappings s2) k = None"
        by simp_all
      from k1 k2 k3 show "k \<notin> seen s2 \<and> k \<notin> item_key ` set (pending_items s2)
            \<and> map_of (classifications s2) k = None \<and> map_of (mappings s2) k = None"
        by simp
    qed
    from a b c show ?thesis unfolding pruned_def by simp
  qed
qed

lemma pruned_run:
  assumes "distinct_paths t" and "bfs_run self t fi = Inr s'"
  shows "frontier t s' \<and> pruned_ok self t s'"
proof -
  have "(frontier t s' \<and> pruned_ok self t s') \<and> task_queue s' = []"
  proof (rule bfs_loop_invariant[where I = "\<lambda>s. frontier t s \<and> pruned_ok self t s"
          and self = self and fi = fi])
    show "bfs_loop self fi (initial_state t) = Inr s'"
      using assms(2) by (simp add: bfs_run_def)
    have "pruned_ok self t (initial_state t)"
      by (simp add: pruned_ok_def initial_state_def)
    with frontier_initial[OF assms(1)]
    show "frontier t (initial_state t) \<and> pruned_ok self t (initial_state t)" by simp
  next
    fix s :: bfs_state and it rest
    assume "frontier t s \<and> pruned_ok self t s" "task_queue s = it # rest"
    then show "frontier t (s\<lparr>task_queue := rest\<rparr>) \<and> pruned_ok self t (s\<lparr>task_queue := rest\<rparr>)"
      using frontier_skip pruned_ok_skip by blast
  next
    fix s s2 :: bfs_state and it rest
    assume i: "frontier t s \<and> pruned_ok self t s" and q: "task_queue s = it # rest"
      and n: "item_key it \<notin> seen s"
      and p: "process_item self it fi
         (s\<lparr>task_queue := rest, seen := insert (item_key it) (seen s)\<rparr>) = Inr s2"
    from i have f: "frontier t s" and o: "pruned_ok self t s" by simp_all
    from frontier_step[OF f q n p] pruned_ok_step[OF assms(1) f o q n p]
    show "frontier t s2 \<and> pruned_ok self t s2" by simp
  qed
  then show ?thesis by simp
qed

lemma foldl_assign_distinct:
  "dicts_distinct s \<Longrightarrow> dicts_distinct (foldl (assign_file n r ca) s fs)"
  by (induction fs arbitrary: s)
    (simp_all add: dicts_distinct_def assign_file_mappings assign_file_classifications distinct_update)

lemma dicts_distinct_step:
  assumes "dicts_distinct s" and "process_item self it fi s = Inr s'"
  shows "dicts_distinct s'"
proof (cases it)
  case (File f)
  with assms(2) have "process_file self f fi s = Inr s'" by (simp add: process_item_def)
  then show ?thesis
    using assms(1) by (cases rule: process_file_cases) (auto simp: dicts_distinct_def distinct_update)
next
  case (Folder n)
  with assms(2) have "process_folder self n fi s = Inr s'" by (simp add: process_item_def)
  then show ?thesis
  proof (cases rule: process_folder_cases)
    case (folder_skip r)
    with assms(1) show ?thesis by (simp add: dicts_distinct_def distinct_update)
  next
    case (folder_descend r)
    with assms(1) show ?thesis by (simp add: dicts_distinct_def distinct_update descend_frame)
  next
    case (folder_assign r s4)
    from propagate_cases[OF folder_assign(5)] assms(1)
    have "dicts_distinct s4" by (auto simp: dicts_distinct_def distinct_update)
    with folder_assign(6) show ?thesis by (simp add: foldl_assign_distinct)
  qed
qed

lemma dicts_distinct_run:
  assumes "bfs_run self t fi = Inr s'"
  shows "dicts_distinct s'"
proof -
  have "dicts_distinct s' \<and> task_queue s' = []"
  proof (rule bfs_loop_invariant[where I = dicts_distinct and self = self and fi = fi])
    show "bfs_loop self fi (initial_state t) = Inr s'"
      using assms by (simp add: bfs_run_def)
    show "dicts_distinct (initial_state t)" by (simp add: dicts_distinct_def initial_state_def)
  next
    fix s :: bfs_state and it rest
    assume "dicts_distinct s"
    then show "dicts_distinct (s\<lparr>task_queue := rest\<rparr>)" by (simp add: dicts_distinct_def)
  next
    fix s s2 :: bfs_state and it rest
    assume "dicts_distinct s"
      and p: "process_item self it fi
         (s\<lparr>task_queue := rest, seen := insert (item_key it) (seen s)\<rparr>) = Inr s2"
    then have "dicts_distinct (s\<lparr>task_queue := rest, seen := insert (item_key it) (seen s)\<rparr>)"
      by (simp add: dicts_distinct_def)
    then show "dicts_distinct s2" using p by (rule dicts_distinct_step)
  qed
  then show ?thesis by simp
qed

text \<open>
  Claim C1. When the decision for a folder is a confident Skip, processing the folder
  returns the state with the call and the decision logged, the folder added to the skipped
  folders and the terminal Skip record stored under the folder's path, and nothing else
  changed: the queue, the mappings and the propagation log are as before. At the end of a
  run over a tree with distinct paths, for every folder of the tree whose recorded
  decision is a confident Skip: the folder's classification is that terminal Skip record,
  under a key that occurs once; no propagation call was made for the folder; and no folder
  or file below it was ever visited (so none was enqueued, since every enqueued item is
  dequeued and its path visited before the run ends) or has a classification or a mapping.
\<close>

theorem confident_skip_prunes_subtree:
  "(folder_answer self n fi s0 = Inr r \<and> category r = SKIP
      \<and> confidence r \<ge> confidence_threshold self \<longrightarrow>
      process_folder self n fi s0 =
        Inr (s0\<lparr>folder_calls := folder_calls s0 @ [path n],
                folder_decisions := AList.update (path n) r (folder_decisions s0),
                skipped_folders := skipped_folders s0 @ [path n],
                classifications :=
                  AList.update (path n)
                    (folder_record n r [] (get_list (ancestor_desc_map s0) (path n)))
                    (classifications s0)\<rparr>))
   \<and> (distinct_paths t \<and> bfs_run self t fi = Inr s \<and> Folder X \<in> set (root_items t)
        \<and> map_of (folder_decisions s) (path X) = Some r \<and> category r = SKIP
        \<and> confidence r \<ge> confidence_threshold self \<longrightarrow>
        (\<exists>anc. map_of (classifications s) (path X) = Some (folder_record X r [] anc))
        \<and> distinct (map fst (classifications s))
        \<and> path X \<notin> fst ` set (propagations s)
        \<and> (\<forall>it \<in> set (below X).
              item_key it \<notin> seen s \<and> map_of (classifications s) (item_key it) = None
              \<and> map_of (mappings s) (item_key it) = None))"
proof (rule conjI; rule impI)
  assume "folder_answer self n fi s0 = Inr r \<and> category r = SKIP
      \<and> confidence r \<ge> confidence_threshold self"
  then show "process_folder self n fi s0 =
        Inr (s0\<lparr>folder_calls := folder_calls s0 @ [path n],
                folder_decisions := AList.update (path n) r (folder_decisions s0),
                skipped_folders := skipped_folders s0 @ [path n],
                classifications :=
                  AList.update (path n)
                    (folder_record n r [] (get_list (ancestor_desc_map s0) (path n)))
                    (classifications s0)\<rparr>)"
    using process_folder_skip[of self n fi s0 r] by simp
next
  assume h: "distinct_paths t \<and> bfs_run self t fi = Inr s \<and> Folder X \<in> set (root_items t)
        \<and> map_of (folder_decisions s) (path X) = Some r \<and> category r = SKIP
        \<and> confidence r \<ge> confidence_threshold self"
  then have dp: "distinct_paths t" and run: "bfs_run self t fi = Inr s"
    and X: "Folder X \<in> set (root_items t)"
    and fd: "map_of (folder_decisions s) (path X) = Some r"
    and cs: "confident_skip self r"
    by (simp_all add: confident_skip_def)
  from pruned_run[OF dp run] have "pruned_ok self t s" by simp
  with X fd cs have pX: "pruned X r s" unfolding pruned_ok_def by blast
  then have a: "\<exists>anc. map_of (classifications s) (path X) = Some (folder_record X r [] anc)"
    and b: "path X \<notin> fst ` set (propagations s)"
    and c: "\<forall>k \<in> item_key ` set (below X).
            k \<notin> seen s \<and> k \<notin> item_key ` set (pending_items s)
            \<and> map_of (classifications s) k = None \<and> map_of (mappings s) k = None"
    unfolding pruned_def by simp_all
  have d: "\<forall>it \<in> set (below X).
              item_key it \<notin> seen s \<and> map_of (classifications s) (item_key it) = None
              \<and> map_of (mappings s) (item_key it) = None"
  proof
    fix it assume "it \<in> set (below X)"
    then have "item_key it \<in> item_key ` set (below X)" by (rule imageI)
    from bspec[OF c this]
    show "item_key it \<notin> seen s \<and> map_of (classifications s) (item_key it) = None
              \<and> map_of (mappings s) (item_key it) = None"
      by simp
  qed
  from dicts_distinct_run[OF run] have e: "distinct (map fst (classifications s))"
    by (simp add: dicts_distinct_def)
  from a e b d
  show "(\<exists>anc. map_of (classifications s) (path X) = Some (folder_record X r [] anc))
        \<and> distinct (map fst (classifications s))
        \<and> path X \<notin> fst ` set (propagations s)
        \<and> (\<forall>it \<in> set (below X).
              item_key it \<notin> seen s \<and> map_of (classifications s) (item_key it) = None
              \<and> map_of (mappings s) (item_key it) = None)"
    by simp
qed

lemma course_tree_distinct_paths: "distinct_paths course_tree"
  by code_simp

text \<open>
  The theorem at the example course with a classifier that skips \<open>hw\<close> with confidence.
\<close>

theorem confident_skip_prunes_subtree_witness:
  "folder_answer skip_traverser folder_hw [] (initial_state course_tree)
     = Inr (answer SKIP 0.9 False ''generated'')
   \<and> category (answer SKIP 0.9 False ''generated'') = SKIP
   \<and> confidence (answer SKIP 0.9 False ''generated'') \<ge> confidence_threshold skip_traverser
   \<and> task_queue (projr (process_folder skip_traverser folder_hw [] (initial_state course_tree)))
       = task_queue (initial_state course_tree)
   \<and> distinct_paths course_tree
   \<and> bfs_run skip_traverser course_tree []
       = Inr (outcome_state (bfs_run skip_traverser course_tree []))
   \<and> Folder folder_hw \<in> set (root_items course_tree)
   \<and> map_of (folder_decisions (outcome_state (bfs_run skip_traverser course_tree []))) (path folder_hw)
       = Some (answer SKIP 0.9 False ''generated'')
   \<and> File file_a \<in> set (below folder_hw) \<and> Folder folder_sol \<in> set (below folder_hw)
   \<and> File file_b \<in> set (below folder_hw)
   \<and> map_of (classifications (outcome_state (bfs_run skip_traverser course_tree []))) ''hw''
       = Some (folder_record folder_hw (answer SKIP 0.9 False ''generated'') [] [])
   \<and> map_of (classifications (outcome_state (bfs_run skip_traverser course_tree []))) ''hw/a.pdf'' = None
   \<and> map_of (mappings (outcome_state (bfs_run skip_traverser course_tree []))) ''hw/a.pdf'' = None
   \<and> ''hw/sol'' \<notin> seen (outcome_state (bfs_run skip_traverser course_tree []))
   \<and> map_of (mappings (outcome_state (bfs_run skip_traverser course_tree []))) ''hw/sol/b.pdf'' = None
   \<and> ''hw'' \<notin> fst ` set (propagations (outcome_state (bfs_run skip_traverser course_tree [])))"
proof -
  let ?r = "answer SKIP 0.9 False ''generated''"
  let ?s0 = "initial_state course_tree"
  let ?S = "outcome_state (bfs_run skip_traverser course_tree [])"
  have a: "folder_answer skip_traverser folder_hw [] ?s0 = Inr ?r"
    by (simp add: skip_traverser_def skip_classifier_def folder_hw_def)
  have c: "category ?r = SKIP" "confidence ?r \<ge> confidence_threshold skip_traverser"
    by (simp_all add: answer_def skip_traverser_def)
  have run: "bfs_run skip_traverser course_tree [] = Inr ?S" by code_simp
  have X: "Folder folder_hw \<in> set (root_items course_tree)" by code_simp
  have fd: "map_of (folder_decisions ?S) (path folder_hw) = Some ?r" by code_simp
  have b: "File file_a \<in> set (below folder_hw)" "Folder folder_sol \<in> set (below folder_hw)"
    "File file_b \<in> set (below folder_hw)"
    by code_simp+
  have k: "item_key (File file_a) = ''hw/a.pdf''" "item_key (Folder folder_sol) = ''hw/sol''"
    "item_key (File file_b) = ''hw/sol/b.pdf''" "path folder_hw = ''hw''"
    by (simp_all add: file_a_def file_b_def folder_sol_def folder_hw_def)
  note inst = confident_skip_prunes_subtree[of skip_traverser folder_hw "[]" ?s0 ?r course_tree ?S folder_hw]
  from inst a c have step: "process_folder skip_traverser folder_hw [] ?s0 =
        Inr (?s0\<lparr>folder_calls := folder_calls ?s0 @ [path folder_hw],
                folder_decisions := AList.update (path folder_hw) ?r (folder_decisions ?s0),
                skipped_folders := skipped_folders ?s0 @ [path folder_hw],
                classifications :=
                  AList.update (path folder_hw)
                    (folder_record folder_hw ?r [] (get_list (ancestor_desc_map ?s0) (path folder_hw)))
                    (classifications ?s0)\<rparr>)"
    by blast
  then have q: "task_queue (projr (process_folder skip_traverser folder_hw [] ?s0)) = task_queue ?s0"
    by simp
  from inst course_tree_distinct_paths run X fd c
  have concl: "(\<exists>anc. map_of (classifications ?S) (path folder_hw) = Some (folder_record folder_hw ?r [] anc))
        \<and> distinct (map fst (classifications ?S))
        \<and> path folder_hw \<notin> fst ` set (propagations ?S)
        \<and> (\<forall>it \<in> set (below folder_hw).
              item_key it \<notin> seen ?S \<and> map_of (classifications ?S) (item_key it) = None
              \<and> map_of (mappings ?S) (item_key it) = None)"
    by blast
  then have all: "\<forall>it \<in> set (below folder_hw).
              item_key it \<notin> seen ?S \<and> map_of (classifications ?S) (item_key it) = None
              \<and> map_of (mappings ?S) (item_key it) = None"
    and np: "path folder_hw \<notin> fst ` set (propagations ?S)"
    by simp_all
  from bspec[OF all b(1)] bspec[OF all b(2)] bspec[OF all b(3)] k
  have d: "map_of (classifications ?S) ''hw/a.pdf'' = None" "map_of (mappings ?S) ''hw/a.pdf'' = None"
    "''hw/sol'' \<notin> seen ?S" "map_of (mappings ?S) ''hw/sol/b.pdf'' = None"
    by simp_all
  have cl: "map_of (classifications ?S) ''hw'' = Some (folder_record folder_hw ?r [] [])"
    by code_simp
  from np k(4) have np': "''hw'' \<notin> fst ` set (propagations ?S)" by simp
  from a c q course_tree_distinct_paths run X fd b cl d np' show ?thesis by simp
qed

section \<open>Skipped files\<close>

lemma process_folder_file_decisions:
  assumes "process_folder self n fi s = Inr s'"
  shows "file_decisions s' = file_decisions s"
  using assms
proof (cases rule: process_folder_cases)
  case (folder_skip r)
  then show ?thesis by simp
next
  case (folder_descend r)
  then show ?thesis by (simp add: descend_frame)
next
  case (folder_assign r s4)
  from propagate_cases[OF folder_assign(5)] have "file_decisions s4 = file_decisions s" by auto
  with folder_assign(6) show ?thesis by (simp add: foldl_assign_frame)
qed

lemma skipped_files_ok_step:
  assumes fr: "frontier t s" and inv: "skipped_files_ok s"
    and q: "task_queue s = it # rest" and new: "item_key it \<notin> seen s"
    and pr: "process_item self it fi
               (s\<lparr>task_queue := rest, seen := insert (item_key it) (seen s)\<rparr>) = Inr s2"
  shows "skipped_files_ok s2"
  unfolding skipped_files_ok_def
proof (intro allI impI)
  fix k r
  assume fd2: "map_of (file_decisions s2) k = Some r" and skip: "category r = SKIP"
  let ?s1 = "s\<lparr>task_queue := rest, seen := insert (item_key it) (seen s)\<rparr>"
  note sf = frontier_step_facts[OF fr q pr]
  note vis = frontier_visited[OF fr]
  obtain B where B: "item_items it = it # B" using item_items_head[of it] by blast
  then have itk: "item_key it \<in> item_key ` set (item_items it)" by simp
  show "map_of (classifications s2) k = None \<and> map_of (mappings s2) k = None"
  proof (cases "k = item_key it")
    case True
    from itk sf(3) have kp: "item_key it \<in> item_key ` set (pending_items s)" by (rule subsetD[rotated])
    note none = sf(7)[OF kp]
    show ?thesis
    proof (cases it)
      case (File f)
      with pr have "process_file self f fi ?s1 = Inr s2" by (simp add: process_item_def)
      then show ?thesis
      proof (cases rule: process_file_cases)
        case (file_skip r')
        with none True show ?thesis by simp
      next
        case (file_keep r')
        from file_keep(3) fd2 True File have "r' = r" by (simp add: update_conv')
        with file_keep(2) skip show ?thesis by simp
      qed
    next
      case (Folder n)
      with pr have "process_folder self n fi ?s1 = Inr s2" by (simp add: process_item_def)
      from process_folder_file_decisions[OF this] fd2
      have "map_of (file_decisions s) k = Some r" by simp
      from map_of_in_keys[OF this] vis(2) have "k \<in> seen s" by (rule subsetD[rotated])
      with new True show ?thesis by simp
    qed
  next
    case False
    from process_item_decisions_frame(2)[OF pr False] fd2
    have fd: "map_of (file_decisions s) k = Some r" by simp
    with inv skip have none: "map_of (classifications s) k = None \<and> map_of (mappings s) k = None"
      unfolding skipped_files_ok_def by blast
    from map_of_in_keys[OF fd] vis(2) have "k \<in> seen s" by (rule subsetD[rotated])
    from sf(6)[OF this] have nk: "k \<notin> item_key ` set (item_items it)" .
    from process_item_frame[OF pr nk] none show ?thesis by simp
  qed
qed

lemma skipped_files_run:
  assumes "distinct_paths t" and "bfs_run self t fi = Inr s'"
  shows "skipped_files_ok s'"
proof -
  have "(frontier t s' \<and> skipped_files_ok s') \<and> task_queue s' = []"
  proof (rule bfs_loop_invariant[where I = "\<lambda>s. frontier t s \<and> skipped_files_ok s"
          and self = self and fi = fi])
    show "bfs_loop self fi (initial_state t) = Inr s'"
      using assms(2) by (simp add: bfs_run_def)
    have "skipped_files_ok (initial_state t)"
      by (simp add: skipped_files_ok_def initial_state_def)
    with frontier_initial[OF assms(1)]
    show "frontier t (initial_state t) \<and> skipped_files_ok (initial_state t)" by simp
  next
    fix s :: bfs_state and it rest
    assume i: "frontier t s \<and> skipped_files_ok s" and q: "task_queue s = it # rest"
    from i have "skipped_files_ok (s\<lparr>task_queue := rest\<rparr>)" by (simp add: skipped_files_ok_def)
    with frontier_skip[OF _ q] i
    show "frontier t (s\<lparr>task_queue := rest\<rparr>) \<and> skipped_files_ok (s\<lparr>task_queue := rest\<rparr>)"
      by simp
  next
    fix s s2 :: bfs_state and it rest
    assume i: "frontier t s \<and> skipped_files_ok s" and q: "task_queue s = it # rest"
      and n: "item_key it \<notin> seen s"
      and p: "process_item self it fi
         (s\<lparr>task_queue := rest, seen := insert (item_key it) (seen s)\<rparr>) = Inr s2"
    from i have f: "frontier t s" and o: "skipped_files_ok s" by simp_all
    from frontier_step[OF f q n p] skipped_files_ok_step[OF f o q n p]
    show "frontier t s2 \<and> skipped_files_ok s2" by simp
  qed
  then show ?thesis by simp
qed

text \<open>
  Claim C6. When the decision for an individually processed file is Skip, processing the
  file returns the state with the call and the decision logged and nothing else changed:
  no classification and no mapping is written. At the end of a run over a tree with
  distinct paths, the path of every file whose own decision was Skip is a key of neither
  the classifications nor the mappings of the result.
\<close>

theorem skipped_file_is_dropped:
  "(classify_file (classifier self) f fi (get_list (ancestor_desc_map s0) (folder_path f)) = Inr r
      \<and> category r = SKIP \<longrightarrow>
      process_file self f fi s0 =
        Inr (s0\<lparr>file_calls := file_calls s0 @ [source_path f],
                file_decisions := AList.update (source_path f) r (file_decisions s0)\<rparr>))
   \<and> (distinct_paths t \<and> bfs_run self t fi = Inr s \<and> map_of (file_decisions s) k = Some r
        \<and> category r = SKIP \<longrightarrow>
        k \<notin> fst ` set (tr_classifications (traversal_result s))
        \<and> k \<notin> fst ` set (tr_mappings (traversal_result s)))"
proof (rule conjI; rule impI)
  assume "classify_file (classifier self) f fi (get_list (ancestor_desc_map s0) (folder_path f)) = Inr r
      \<and> category r = SKIP"
  then show "process_file self f fi s0 =
        Inr (s0\<lparr>file_calls := file_calls s0 @ [source_path f],
                file_decisions := AList.update (source_path f) r (file_decisions s0)\<rparr>)"
    by (simp add: process_file_def Let_def)
next
  assume "distinct_paths t \<and> bfs_run self t fi = Inr s \<and> map_of (file_decisions s) k = Some r
        \<and> category r = SKIP"
  then have dp: "distinct_paths t" and run: "bfs_run self t fi = Inr s"
    and fd: "map_of (file_decisions s) k = Some r" and sk: "category r = SKIP"
    by simp_all
  from skipped_files_run[OF dp run] fd sk
  have "map_of (classifications s) k = None \<and> map_of (mappings s) k = None"
    unfolding skipped_files_ok_def by blast
  then show "k \<notin> fst ` set (tr_classifications (traversal_result s))
        \<and> k \<notin> fst ` set (tr_mappings (traversal_result s))"
    by (simp add: traversal_result_def map_of_eq_None_iff)
qed

text \<open>
  The theorem at the example course, whose lock file is skipped.
\<close>

theorem skipped_file_is_dropped_witness:
  "classify_file (classifier stub_traverser) file_lock []
      (get_list (ancestor_desc_map (initial_state course_tree)) (folder_path file_lock))
     = Inr (answer SKIP 1 False [])
   \<and> category (answer SKIP 1 False []) = SKIP
   \<and> process_file stub_traverser file_lock [] (initial_state course_tree)
       = Inr ((initial_state course_tree)
               \<lparr>file_calls := [''notes/generated.lock''],
                file_decisions := [(''notes/generated.lock'', answer SKIP 1 False [])]\<rparr>)
   \<and> distinct_paths course_tree
   \<and> bfs_run stub_traverser course_tree []
       = Inr (outcome_state (bfs_run stub_traverser course_tree []))
   \<and> map_of (file_decisions (outcome_state (bfs_run stub_traverser course_tree [])))
        ''notes/generated.lock'' = Some (answer SKIP 1 False [])
   \<and> ''notes/generated.lock''
        \<notin> fst ` set (tr_classifications
                       (traversal_result (outcome_state (bfs_run stub_traverser course_tree []))))
   \<and> ''notes/generated.lock''
        \<notin> fst ` set (tr_mappings
                       (traversal_result (outcome_state (bfs_run stub_traverser course_tree []))))"
proof -
  let ?r = "answer SKIP 1 False []"
  let ?s0 = "initial_state course_tree"
  let ?S = "outcome_state (bfs_run stub_traverser course_tree [])"
  have a: "classify_file (classifier stub_traverser) file_lock []
      (get_list (ancestor_desc_map ?s0) (folder_path file_lock)) = Inr ?r"
    by (simp add: stub_traverser_def stub_classifier_def file_lock_def)
  have c: "category ?r = SKIP" by (simp add: answer_def)
  have run: "bfs_run stub_traverser course_tree [] = Inr ?S" by code_simp
  have fd: "map_of (file_decisions ?S) ''notes/generated.lock'' = Some ?r" by code_simp
  have i: "file_calls ?s0 = []" "file_decisions ?s0 = []"
    "source_path file_lock = ''notes/generated.lock''"
    by (simp_all add: initial_state_def file_lock_def)
  note inst = skipped_file_is_dropped[of stub_traverser file_lock "[]" ?s0 ?r course_tree ?S
      "''notes/generated.lock''"]
  from inst a c have "process_file stub_traverser file_lock [] ?s0 =
        Inr (?s0\<lparr>file_calls := file_calls ?s0 @ [source_path file_lock],
                file_decisions := AList.update (source_path file_lock) ?r (file_decisions ?s0)\<rparr>)"
    by blast
  with i have step: "process_file stub_traverser file_lock [] ?s0
       = Inr (?s0\<lparr>file_calls := [''notes/generated.lock''],
                file_decisions := [(''notes/generated.lock'', ?r)]\<rparr>)"
    by simp
  from inst course_tree_distinct_paths run fd c
  have "''notes/generated.lock'' \<notin> fst ` set (tr_classifications (traversal_result ?S))
        \<and> ''notes/generated.lock'' \<notin> fst ` set (tr_mappings (traversal_result ?S))"
    by blast
  with a c step course_tree_distinct_paths run fd show ?thesis by simp
qed

section \<open>The mapping store\<close>

lemma root_items_set: "set (root_items t) = set (below t)"
  using kids_items_set[of t] by (simp add: root_items_def initial_state_def kids_def)

lemma root_file: "File f \<in> set (root_items t) \<Longrightarrow> f \<in> set (subtree_files t)"
  using file_in_subtree_items[of f t] by (simp add: root_items_set subtree_items_sel)

lemma mapped_category:
  "c \<noteq> SKIP \<Longrightarrow> m_category (mapping_of c rsn k) \<in> {''study'', ''practice'', ''support''}"
  by (cases c) (simp_all add: mapping_of_def)

lemma mappings_wf_step:
  assumes inv: "mappings_wf t s" and q: "task_queue s = it # rest"
    and pr: "process_item self it fi
               (s\<lparr>task_queue := rest, seen := insert (item_key it) (seen s)\<rparr>) = Inr s2"
  shows "mappings_wf t s2"
proof -
  let ?s1 = "s\<lparr>task_queue := rest, seen := insert (item_key it) (seen s)\<rparr>"
  from inv have sub: "set (pending_items s) \<subseteq> set (root_items t)"
    and old: "\<And>k m. map_of (mappings s) k = Some m \<Longrightarrow>
            source_rel m = k \<and> m_category m \<in> {''study'', ''practice'', ''support''}
            \<and> k \<in> source_path ` set (subtree_files t)"
    unfolding mappings_wf_def by simp_all
  have p: "pending_items s = item_items it @ pending_items ?s1"
    using q by (simp add: pending_items_def)
  from sub p have its: "set (item_items it) \<subseteq> set (root_items t)"
    and rests: "set (pending_items ?s1) \<subseteq> set (root_items t)" by simp_all
  from process_item_pending[OF pr] its rests
  have sub2: "set (pending_items s2) \<subseteq> set (root_items t)" by (meson Un_least subset_trans)
  have new: "source_rel m = k \<and> m_category m \<in> {''study'', ''practice'', ''support''}
            \<and> k \<in> source_path ` set (subtree_files t)"
    if m: "map_of (mappings s2) k = Some m" for k m
  proof (cases it)
    case (File f)
    with pr have "process_file self f fi ?s1 = Inr s2" by (simp add: process_item_def)
    then show ?thesis
    proof (cases rule: process_file_cases)
      case (file_skip r)
      with m old show ?thesis by simp
    next
      case (file_keep r)
      show ?thesis
      proof (cases "k = source_path f")
        case True
        with file_keep(3) m have me: "m = mapping_of (category r) (reason r) k"
          by (simp add: update_conv')
        from its File have "File f \<in> set (root_items t)" by simp
        from root_file[OF this] True have "k \<in> source_path ` set (subtree_files t)" by simp
        with me mapped_category[OF file_keep(2)] show ?thesis by (simp add: mapping_of_def)
      next
        case False
        with file_keep(3) m have "map_of (mappings s) k = Some m" by (simp add: update_conv')
        from old[OF this] show ?thesis .
      qed
    qed
  next
    case (Folder n)
    with pr have "process_folder self n fi ?s1 = Inr s2" by (simp add: process_item_def)
    then show ?thesis
    proof (cases rule: process_folder_cases)
      case (folder_skip r)
      with m old show ?thesis by simp
    next
      case (folder_descend r)
      with m old show ?thesis by (simp add: descend_frame)
    next
      case (folder_assign r s4)
      from propagate_cases[OF folder_assign(5)] have m4: "mappings s4 = mappings s" by auto
      show ?thesis
      proof (cases "k \<in> source_path ` set (collect_all_files n)")
        case True
        with folder_assign(6) m have me: "m = mapping_of (category r) (reason r) k"
          by (simp add: foldl_assign_mappings)
        from True obtain f where f: "f \<in> set (collect_all_files n)" "k = source_path f" by blast
        from collected_files_below[OF f(1)] have "File f \<in> set (subtree_items n)"
          by (simp add: subtree_items_sel)
        with its Folder have "File f \<in> set (root_items t)" by auto
        from root_file[OF this] f(2) have "k \<in> source_path ` set (subtree_files t)" by simp
        with me mapped_category[OF folder_assign(2)] show ?thesis by (simp add: mapping_of_def)
      next
        case False
        with folder_assign(6) m m4 have "map_of (mappings s) k = Some m"
          by (simp add: foldl_assign_mappings)
        from old[OF this] show ?thesis .
      qed
    qed
  qed
  from sub2 new show ?thesis unfolding mappings_wf_def by blast
qed

lemma mappings_wf_run:
  assumes "bfs_run self t fi = Inr s'"
  shows "mappings_wf t s'"
proof -
  have "mappings_wf t s' \<and> task_queue s' = []"
  proof (rule bfs_loop_invariant[where I = "mappings_wf t" and self = self and fi = fi])
    show "bfs_loop self fi (initial_state t) = Inr s'"
      using assms by (simp add: bfs_run_def)
    show "mappings_wf t (initial_state t)"
      by (simp add: mappings_wf_def root_items_def pending_items_def) (simp add: initial_state_def)
  next
    fix s :: bfs_state and it rest
    assume "mappings_wf t s" "task_queue s = it # rest"
    then show "mappings_wf t (s\<lparr>task_queue := rest\<rparr>)"
      by (simp add: mappings_wf_def pending_items_def)
  next
    fix s s2 :: bfs_state and it rest
    assume "mappings_wf t s" "task_queue s = it # rest"
      and "process_item self it fi
         (s\<lparr>task_queue := rest, seen := insert (item_key it) (seen s)\<rparr>) = Inr s2"
    then show "mappings_wf t s2" by (rule mappings_wf_step)
  qed
  then show ?thesis by simp
qed

lemma mapped_ok_step:
  assumes fr: "frontier t s" and inv: "mapped_ok s"
    and q: "task_queue s = it # rest"
    and pr: "process_item self it fi
               (s\<lparr>task_queue := rest, seen := insert (item_key it) (seen s)\<rparr>) = Inr s2"
  shows "mapped_ok s2"
  unfolding mapped_ok_def
proof (intro allI impI)
  fix k m
  assume m: "map_of (mappings s2) k = Some m"
  let ?s1 = "s\<lparr>task_queue := rest, seen := insert (item_key it) (seen s)\<rparr>"
  let ?goal = "\<exists>c. map_of (classifications s2) k = Some c \<and> c_category c \<noteq> SKIP
             \<and> (classified_at_level c = ''file'' \<or> parent_folder c \<noteq> None)
             \<and> m_category m = category_value (c_category c)"
  note sf = frontier_step_facts[OF fr q pr]
  show ?goal
  proof (cases "k \<in> item_key ` set (item_items it)")
    case False
    from process_item_frame[OF pr False] m
    have "map_of (mappings s) k = Some m"
      and c: "map_of (classifications s2) k = map_of (classifications s) k"
      by simp_all
    with inv show ?thesis unfolding mapped_ok_def c by blast
  next
    case True
    from True sf(3) have "k \<in> item_key ` set (pending_items s)" by (rule subsetD[rotated])
    from sf(7)[OF this] have none: "map_of (mappings s) k = None" by simp
    show ?thesis
    proof (cases it)
      case (File f)
      with pr have "process_file self f fi ?s1 = Inr s2" by (simp add: process_item_def)
      then show ?thesis
      proof (cases rule: process_file_cases)
        case (file_skip r)
        with m none show ?thesis by simp
      next
        case (file_keep r)
        from True File have k: "k = source_path f" by simp
        let ?c = "file_record f r (get_list (ancestor_desc_map s) (folder_path f))"
        from file_keep(3) k m have "m = mapping_of (category r) (reason r) k"
          and "map_of (classifications s2) k = Some ?c"
          by (simp_all add: update_conv')
        with file_keep(2) have "map_of (classifications s2) k = Some ?c \<and> c_category ?c \<noteq> SKIP
             \<and> (classified_at_level ?c = ''file'' \<or> parent_folder ?c \<noteq> None)
             \<and> m_category m = category_value (c_category ?c)"
          by (simp add: file_record_def mapping_of_def)
        then show ?thesis by blast
      qed
    next
      case (Folder n)
      with pr have "process_folder self n fi ?s1 = Inr s2" by (simp add: process_item_def)
      then show ?thesis
      proof (cases rule: process_folder_cases)
        case (folder_skip r)
        with m none show ?thesis by simp
      next
        case (folder_descend r)
        with m none show ?thesis by (simp add: descend_frame)
      next
        case (folder_assign r s4)
        from propagate_cases[OF folder_assign(5)] have m4: "mappings s4 = mappings s" by auto
        let ?ca = "child_ancestors_of r (get_list (ancestor_desc_map s) (path n))"
        have kin: "k \<in> source_path ` set (collect_all_files n)"
        proof (rule ccontr)
          assume "k \<notin> source_path ` set (collect_all_files n)"
          with folder_assign(6) m m4 none show False by (simp add: foldl_assign_mappings)
        qed
        let ?c = "inherited_record n r ?ca k"
        from folder_assign(6) kin m have "m = mapping_of (category r) (reason r) k"
          and "map_of (classifications s2) k = Some ?c"
          by (simp_all add: foldl_assign_mappings foldl_assign_classifications)
        with folder_assign(2) have "map_of (classifications s2) k = Some ?c \<and> c_category ?c \<noteq> SKIP
             \<and> (classified_at_level ?c = ''file'' \<or> parent_folder ?c \<noteq> None)
             \<and> m_category m = category_value (c_category ?c)"
          by (simp add: inherited_record_def mapping_of_def)
        then show ?thesis by blast
      qed
    qed
  qed
qed

lemma mapped_run:
  assumes "distinct_paths t" and "bfs_run self t fi = Inr s'"
  shows "mapped_ok s'"
proof -
  have "(frontier t s' \<and> mapped_ok s') \<and> task_queue s' = []"
  proof (rule bfs_loop_invariant[where I = "\<lambda>s. frontier t s \<and> mapped_ok s"
          and self = self and fi = fi])
    show "bfs_loop self fi (initial_state t) = Inr s'"
      using assms(2) by (simp add: bfs_run_def)
    have "mapped_ok (initial_state t)" by (simp add: mapped_ok_def initial_state_def)
    with frontier_initial[OF assms(1)]
    show "frontier t (initial_state t) \<and> mapped_ok (initial_state t)" by simp
  next
    fix s :: bfs_state and it rest
    assume i: "frontier t s \<and> mapped_ok s" and q: "task_queue s = it # rest"
    from i have "mapped_ok (s\<lparr>task_queue := rest\<rparr>)" by (simp add: mapped_ok_def)
    with frontier_skip[OF _ q] i
    show "frontier t (s\<lparr>task_queue := rest\<rparr>) \<and> mapped_ok (s\<lparr>task_queue := rest\<rparr>)" by simp
  next
    fix s s2 :: bfs_state and it rest
    assume i: "frontier t s \<and> mapped_ok s" and q: "task_queue s = it # rest"
      and n: "item_key it \<notin> seen s"
      and p: "process_item self it fi
         (s\<lparr>task_queue := rest, seen := insert (item_key it) (seen s)\<rparr>) = Inr s2"
    from i have f: "frontier t s" and o: "mapped_ok s" by simp_all
    from frontier_step[OF f q n p] mapped_ok_step[OF f o q p]
    show "frontier t s2 \<and> mapped_ok s2" by simp
  qed
  then show ?thesis by simp
qed

text \<open>
  Claim C7. In the result of a traversal of the tree built from a list of scanned paths,
  the keys of the mappings are pairwise distinct; every mapping is stored under its own
  \<open>source_rel\<close>, which is one of the scanned paths; its category is study, practice or
  support; and, when the paths of the tree are distinct, the path has a terminal file
  classification (a record of its own or one inherited from a folder) whose category is
  the mapping's and is not Skip.
\<close>

theorem mappings_keyed_by_scanned_paths:
  assumes "bfs_classify self (build_tree files_on_disk index) fi = Inr res"
  shows "distinct (map fst (tr_mappings res))
       \<and> (\<forall>km \<in> set (tr_mappings res).
             source_rel (snd km) = fst km
           \<and> fst km \<in> set files_on_disk
           \<and> m_category (snd km) \<in> {''study'', ''practice'', ''support''}
           \<and> (distinct_paths (build_tree files_on_disk index) \<longrightarrow>
                (\<exists>c. map_of (tr_classifications res) (fst km) = Some c \<and> c_category c \<noteq> SKIP
                    \<and> (classified_at_level c = ''file'' \<or> parent_folder c \<noteq> None)
                    \<and> m_category (snd km) = category_value (c_category c))))"
proof -
  let ?t = "build_tree files_on_disk index"
  from assms obtain s where run: "bfs_run self ?t fi = Inr s" and res: "res = traversal_result s"
    by (auto simp: bfs_classify_def split: sum.splits)
  have maps: "tr_mappings res = mappings s" and cls: "tr_classifications res = classifications s"
    by (simp_all add: res traversal_result_def)
  from dicts_distinct_run[OF run] have d: "distinct (map fst (mappings s))"
    by (simp add: dicts_distinct_def)
  from mappings_wf_run[OF run] have wf: "\<And>k m. map_of (mappings s) k = Some m \<Longrightarrow>
            source_rel m = k \<and> m_category m \<in> {''study'', ''practice'', ''support''}
            \<and> k \<in> source_path ` set (subtree_files ?t)"
    unfolding mappings_wf_def by simp
  have paths: "source_path ` set (subtree_files ?t) = set files_on_disk"
    by (rule build_tree_files)
  have "\<forall>km \<in> set (mappings s).
             source_rel (snd km) = fst km
           \<and> fst km \<in> set files_on_disk
           \<and> m_category (snd km) \<in> {''study'', ''practice'', ''support''}
           \<and> (distinct_paths ?t \<longrightarrow>
                (\<exists>c. map_of (classifications s) (fst km) = Some c \<and> c_category c \<noteq> SKIP
                    \<and> (classified_at_level c = ''file'' \<or> parent_folder c \<noteq> None)
                    \<and> m_category (snd km) = category_value (c_category c)))"
  proof
    fix km assume "km \<in> set (mappings s)"
    then have "(fst km, snd km) \<in> set (mappings s)" by simp
    with d have m: "map_of (mappings s) (fst km) = Some (snd km)" by (rule map_of_is_SomeI)
    from wf[OF m] paths have a: "source_rel (snd km) = fst km" "fst km \<in> set files_on_disk"
      "m_category (snd km) \<in> {''study'', ''practice'', ''support''}"
      by simp_all
    have b: "\<exists>c. map_of (classifications s) (fst km) = Some c \<and> c_category c \<noteq> SKIP
                    \<and> (classified_at_level c = ''file'' \<or> parent_folder c \<noteq> None)
                    \<and> m_category (snd km) = category_value (c_category c)"
      if dp: "distinct_paths ?t"
      using mapped_run[OF dp run] m unfolding mapped_ok_def by blast
    from a b show "source_rel (snd km) = fst km
           \<and> fst km \<in> set files_on_disk
           \<and> m_category (snd km) \<in> {''study'', ''practice'', ''support''}
           \<and> (distinct_paths ?t \<longrightarrow>
                (\<exists>c. map_of (classifications s) (fst km) = Some c \<and> c_category c \<noteq> SKIP
                    \<and> (classified_at_level c = ''file'' \<or> parent_folder c \<noteq> None)
                    \<and> m_category (snd km) = category_value (c_category c)))"
      by blast
  qed
  with d show ?thesis unfolding maps cls by simp
qed

text \<open>
  The theorem at the example course and the list of paths its tree is built from.
\<close>

theorem mappings_keyed_by_scanned_paths_witness:
  "bfs_classify stub_traverser (build_tree course_paths []) []
     = Inr (traversal_result (outcome_state (bfs_run stub_traverser course_tree [])))
   \<and> distinct_paths (build_tree course_paths [])
   \<and> map fst (tr_mappings (traversal_result (outcome_state (bfs_run stub_traverser course_tree []))))
       = [''hw/a.pdf'', ''hw/sol/b.pdf'', ''readme.md'']
   \<and> (''hw/a.pdf'', mapping_of PRACTICE ''r'' ''hw/a.pdf'')
       \<in> set (tr_mappings (traversal_result (outcome_state (bfs_run stub_traverser course_tree []))))
   \<and> source_rel (mapping_of PRACTICE ''r'' ''hw/a.pdf'') = ''hw/a.pdf''
   \<and> ''hw/a.pdf'' \<in> set course_paths
   \<and> (\<exists>c. map_of (tr_classifications
                     (traversal_result (outcome_state (bfs_run stub_traverser course_tree []))))
              ''hw/a.pdf'' = Some c
          \<and> c_category c \<noteq> SKIP
          \<and> (classified_at_level c = ''file'' \<or> parent_folder c \<noteq> None)
          \<and> m_category (mapping_of PRACTICE ''r'' ''hw/a.pdf'') = category_value (c_category c))"
proof -
  let ?R = "traversal_result (outcome_state (bfs_run stub_traverser course_tree []))"
  let ?m = "mapping_of PRACTICE ''r'' ''hw/a.pdf''"
  have run: "bfs_classify stub_traverser (build_tree course_paths []) [] = Inr ?R"
    unfolding course_tree_built by code_simp
  have dp: "distinct_paths (build_tree course_paths [])"
    unfolding course_tree_built by (rule course_tree_distinct_paths)
  have keys: "map fst (tr_mappings ?R) = [''hw/a.pdf'', ''hw/sol/b.pdf'', ''readme.md'']"
    by code_simp
  have mem: "(''hw/a.pdf'', ?m) \<in> set (tr_mappings ?R)" by code_simp
  from mappings_keyed_by_scanned_paths[OF run]
  have "\<forall>km \<in> set (tr_mappings ?R).
             source_rel (snd km) = fst km
           \<and> fst km \<in> set course_paths
           \<and> m_category (snd km) \<in> {''study'', ''practice'', ''support''}
           \<and> (distinct_paths (build_tree course_paths []) \<longrightarrow>
                (\<exists>c. map_of (tr_classifications ?R) (fst km) = Some c \<and> c_category c \<noteq> SKIP
                    \<and> (classified_at_level c = ''file'' \<or> parent_folder c \<noteq> None)
                    \<and> m_category (snd km) = category_value (c_category c)))"
    by (rule conjunct2)
  from bspec[OF this mem] dp
  have "source_rel ?m = ''hw/a.pdf''" "''hw/a.pdf'' \<in> set course_paths"
    "\<exists>c. map_of (tr_classifications ?R) ''hw/a.pdf'' = Some c \<and> c_category c \<noteq> SKIP
          \<and> (classified_at_level c = ''file'' \<or> parent_folder c \<noteq> None)
          \<and> m_category ?m = category_value (c_category c)"
    by simp_all
  with run dp keys mem show ?thesis by simp
qed

section \<open>Scans give trees with distinct paths\<close>

lemma folder_paths_sel:
  "folder_paths n = concat (map (\<lambda>kc. path (snd kc) # folder_paths (snd kc)) (children n))"
  by (cases n) simp

lemma plain_names_sel:
  "plain_names n = (\<forall>kc \<in> set (children n). slash \<notin> set (fst kc) \<and> plain_names (snd kc))"
  by (cases n) simp

text \<open>The keys below a node are the folder paths and the file paths below it.\<close>

lemma below_keys_set:
  "item_key ` set (below n) = set (folder_paths n) \<union> source_path ` set (subtree_files n)"
proof (induction n rule: subtree_items.induct)
  case (1 p nm fs cs)
  have "item_key ` set (subtree_items (snd kc))
          = insert (path (snd kc)) (set (folder_paths (snd kc)))
            \<union> source_path ` set (subtree_files (snd kc))"
    if "kc \<in> set cs" for kc
    using "1.IH"[OF that] by (simp add: subtree_items_sel)
  then have "(\<Union>kc \<in> set cs. item_key ` set (subtree_items (snd kc)))
          = (\<Union>kc \<in> set cs. insert (path (snd kc)) (set (folder_paths (snd kc)))
                                 \<union> source_path ` set (subtree_files (snd kc)))"
    by simp
  moreover have "item_key ` File ` set fs = source_path ` set fs" by (simp add: image_image)
  ultimately show ?case by (simp add: below_def image_Un image_UN) blast
qed

lemma below_length:
  "length (below n) = length (folder_paths n) + length (subtree_files n)"
proof (induction n rule: subtree_items.induct)
  case (1 p nm fs cs)
  have "length (subtree_items (snd kc))
          = Suc (length (folder_paths (snd kc))) + length (subtree_files (snd kc))"
    if "kc \<in> set cs" for kc
    using "1.IH"[OF that] by (simp add: subtree_items_sel)
  then have "map (\<lambda>kc. length (subtree_items (snd kc))) cs
       = map (\<lambda>kc. Suc (length (folder_paths (snd kc))) + length (subtree_files (snd kc))) cs"
    by simp
  then have "(\<Sum>kc\<leftarrow>cs. length (subtree_items (snd kc)))
       = (\<Sum>kc\<leftarrow>cs. Suc (length (folder_paths (snd kc))) + length (subtree_files (snd kc)))"
    by (rule arg_cong)
  also have "\<dots> = (\<Sum>kc\<leftarrow>cs. Suc (length (folder_paths (snd kc))))
                  + (\<Sum>kc\<leftarrow>cs. length (subtree_files (snd kc)))"
    by (rule sum_list_addf)
  finally show ?case
    by (simp add: below_def length_concat comp_def)
qed

lemma below_keys_distinct:
  assumes "distinct (folder_paths n)" and "distinct (map source_path (subtree_files n))"
    and "set (folder_paths n) \<inter> source_path ` set (subtree_files n) = {}"
  shows "distinct (map item_key (below n))"
proof (rule card_distinct)
  have "card (set (map item_key (below n)))
          = card (set (folder_paths n) \<union> set (map source_path (subtree_files n)))"
    by (simp add: below_keys_set)
  also have "\<dots> = card (set (folder_paths n)) + card (set (map source_path (subtree_files n)))"
    using assms(3) by (intro card_Un_disjoint) simp_all
  also have "\<dots> = length (folder_paths n) + length (subtree_files n)"
    using assms(1,2) by (simp add: distinct_card del: set_map)
  also have "\<dots> = length (map item_key (below n))" by (simp add: below_length)
  finally show "card (set (map item_key (below n))) = length (map item_key (below n))" .
qed

lemma seg_under_refl: "seg_under a a"
  by (simp add: seg_under_def)

lemma seg_under_step: "seg_under (a @ slash # k) q \<Longrightarrow> seg_under a q \<and> q \<noteq> a"
  by (auto simp: seg_under_def)

lemma folder_paths_under:
  "well_placed n \<Longrightarrow> q \<in> set (folder_paths n) \<Longrightarrow> seg_under (path n) q \<and> q \<noteq> path n"
proof (induction n arbitrary: q rule: folder_paths.induct)
  case (1 p nm fs cs)
  from "1.prems"(2) obtain kc where kc: "kc \<in> set cs"
    and q: "q = path (snd kc) \<or> q \<in> set (folder_paths (snd kc))"
    by auto
  from "1.prems"(1) kc have pc: "path (snd kc) = p @ slash # fst kc" and wc: "well_placed (snd kc)"
    by simp_all
  from q have "seg_under (path (snd kc)) q"
  proof
    assume "q = path (snd kc)"
    then show ?thesis by (simp add: seg_under_refl)
  next
    assume "q \<in> set (folder_paths (snd kc))"
    from "1.IH"[OF kc wc this] show ?thesis by simp
  qed
  with pc seg_under_step[of p "fst kc" q] show ?case by simp
qed

lemma seg_under_differ:
  assumes "slash \<notin> set k1" and "slash \<notin> set k2" and "k1 \<noteq> k2"
    and "seg_under (a @ k1) q1" and "seg_under (a @ k2) q2"
  shows "q1 \<noteq> q2"
proof
  assume eq: "q1 = q2"
  from assms(4,5) obtain r1 r2 where r: "q1 = a @ k1 @ r1" "r1 = [] \<or> hd r1 = slash"
    "q2 = a @ k2 @ r2" "r2 = [] \<or> hd r2 = slash"
    by (auto simp: seg_under_def)
  have t: "takeWhile (\<lambda>c. c \<noteq> slash) (k @ r) = k" if "slash \<notin> set k" "r = [] \<or> hd r = slash"
    for k r :: string
  proof -
    from that(2) have "takeWhile (\<lambda>c. c \<noteq> slash) r = []" by (cases r) auto
    moreover from that(1) have "takeWhile (\<lambda>c. c \<noteq> slash) (k @ r) = k @ takeWhile (\<lambda>c. c \<noteq> slash) r"
      by (intro takeWhile_append2) auto
    ultimately show ?thesis by simp
  qed
  from eq r(1,3) have "k1 @ r1 = k2 @ r2" by simp
  then have "takeWhile (\<lambda>c. c \<noteq> slash) (k1 @ r1) = takeWhile (\<lambda>c. c \<noteq> slash) (k2 @ r2)" by simp
  with t[OF assms(1) r(2)] t[OF assms(2) r(4)] have "k1 = k2" by simp
  with assms(3) show False by simp
qed

lemma distinct_concat_map:
  assumes "distinct (map fst xs)"
    and "\<And>x. x \<in> set xs \<Longrightarrow> distinct (g x)"
    and "\<And>x y. x \<in> set xs \<Longrightarrow> y \<in> set xs \<Longrightarrow> fst x \<noteq> fst y \<Longrightarrow> set (g x) \<inter> set (g y) = {}"
  shows "distinct (concat (map g xs))"
  using assms
proof (induction xs)
  case Nil
  show ?case by simp
next
  case (Cons x xs)
  have a: "distinct (g x)" using Cons.prems(2) by simp
  have b: "distinct (concat (map g xs))"
    using Cons.IH Cons.prems by simp
  have c: "set (g x) \<inter> set (g y) = {}" if "y \<in> set xs" for y
  proof -
    from that Cons.prems(1) have "fst x \<noteq> fst y" by auto
    with Cons.prems(3)[of x y] that show ?thesis by simp
  qed
  from c have "set (g x) \<inter> (\<Union>y \<in> set xs. set (g y)) = {}" by blast
  with a b show ?case by simp
qed

lemma children_paths_distinct:
  assumes "distinct (map fst cs)"
    and "\<And>kc. kc \<in> set cs \<Longrightarrow> path (snd kc) = a @ fst kc \<and> slash \<notin> set (fst kc)
            \<and> well_placed (snd kc) \<and> distinct (folder_paths (snd kc))"
  shows "distinct (concat (map (\<lambda>kc. path (snd kc) # folder_paths (snd kc)) cs))"
proof (rule distinct_concat_map[OF assms(1)])
  fix kc assume kc: "kc \<in> set cs"
  from assms(2)[OF kc] folder_paths_under[of "snd kc" "path (snd kc)"]
  show "distinct (path (snd kc) # folder_paths (snd kc))" by auto
next
  fix x y assume x: "x \<in> set cs" and y: "y \<in> set cs" and ne: "fst x \<noteq> fst y"
  have u: "seg_under (a @ fst kc) q"
    if "kc \<in> set cs" "q \<in> set (path (snd kc) # folder_paths (snd kc))" for kc q
    using assms(2)[OF that(1)] that(2) folder_paths_under[of "snd kc" q]
    by (auto simp: seg_under_refl)
  show "set (path (snd x) # folder_paths (snd x)) \<inter> set (path (snd y) # folder_paths (snd y)) = {}"
  proof (rule ccontr)
    assume "set (path (snd x) # folder_paths (snd x)) \<inter> set (path (snd y) # folder_paths (snd y)) \<noteq> {}"
    then obtain q where q: "q \<in> set (path (snd x) # folder_paths (snd x))"
      "q \<in> set (path (snd y) # folder_paths (snd y))" by blast
    from assms(2)[OF x] assms(2)[OF y]
    have "slash \<notin> set (fst x)" "slash \<notin> set (fst y)" by simp_all
    from seg_under_differ[OF this ne u[OF x q(1)] u[OF y q(2)]] show False by simp
  qed
qed

lemma folder_paths_distinct:
  "well_placed n \<Longrightarrow> plain_names n \<Longrightarrow> distinct (folder_paths n)"
proof (induction n rule: folder_paths.induct)
  case (1 p nm fs cs)
  have "distinct (concat (map (\<lambda>kc. path (snd kc) # folder_paths (snd kc)) cs))"
  proof (rule children_paths_distinct[where a = "p @ [slash]"])
    show "distinct (map fst cs)" using "1.prems"(1) by simp
  next
    fix kc assume kc: "kc \<in> set cs"
    with "1.prems" have "well_placed (snd kc)" "plain_names (snd kc)"
      "path (snd kc) = p @ slash # fst kc" "slash \<notin> set (fst kc)"
      by simp_all
    with "1.IH"[OF kc]
    show "path (snd kc) = (p @ [slash]) @ fst kc \<and> slash \<notin> set (fst kc)
            \<and> well_placed (snd kc) \<and> distinct (folder_paths (snd kc))"
      by simp
  qed
  then show ?case by simp
qed

lemma root_folder_paths_distinct:
  assumes "well_rooted t" and "plain_names t"
  shows "distinct (folder_paths t)"
proof -
  have "distinct (concat (map (\<lambda>kc. path (snd kc) # folder_paths (snd kc)) (children t)))"
  proof (rule children_paths_distinct[where a = "[]"])
    show "distinct (map fst (children t))" using assms(1) by (simp add: well_rooted_def)
  next
    fix kc assume kc: "kc \<in> set (children t)"
    with assms(1) have "well_placed (snd kc)" "path (snd kc) = fst kc"
      by (simp_all add: well_rooted_def)
    moreover from assms(2) kc have "slash \<notin> set (fst kc)" "plain_names (snd kc)"
      by (simp_all add: plain_names_sel[of t])
    ultimately
    show "path (snd kc) = [] @ fst kc \<and> slash \<notin> set (fst kc)
            \<and> well_placed (snd kc) \<and> distinct (folder_paths (snd kc))"
      using folder_paths_distinct[of "snd kc"] by simp
  qed
  then show ?thesis by (simp add: folder_paths_sel[of t])
qed

text \<open>What \<open>build_tree\<close> creates: child names without a slash, folders on the way to a file.\<close>

lemma py_split_no_sep: "p \<in> set (py_split sep s) \<Longrightarrow> sep \<notin> set p"
proof (induction s arbitrary: p)
  case Nil
  then show ?case by simp
next
  case (Cons c cs)
  show ?case
  proof (cases "c = sep")
    case True
    with Cons show ?thesis by auto
  next
    case False
    obtain w ws where w: "py_split sep cs = w # ws"
      using py_split_nonempty[of sep cs] by (cases "py_split sep cs") auto
    with Cons.prems False have "p = c # w \<or> p \<in> set ws" by simp
    with Cons.IH[of w] Cons.IH[of p] w False show ?thesis by auto
  qed
qed

lemma attach_file_plain:
  "plain_names node \<Longrightarrow> \<forall>p \<in> set ps. slash \<notin> set p \<Longrightarrow> plain_names (attach_file node agg ps fm)"
proof (induction ps arbitrary: node agg)
  case Nil
  then show ?case by (simp add: plain_names_sel[of node] plain_names_sel[of "FolderNode _ _ _ _"])
next
  case (Cons p ps)
  let ?agg = "agg @ [p]"
  let ?child = "case map_of (children node) p of
                  None \<Rightarrow> FolderNode (py_join ?agg) p [] [] | Some c \<Rightarrow> c"
  have "plain_names ?child"
  proof (cases "map_of (children node) p")
    case None
    then show ?thesis by simp
  next
    case (Some c)
    then have "(p, c) \<in> set (children node)" by (rule map_of_SomeD)
    with Cons.prems(1) Some show ?thesis by (auto simp: plain_names_sel[of node])
  qed
  with Cons.IH[of ?child ?agg] Cons.prems(2)
  have rec: "plain_names (attach_file ?child ?agg ps fm)" by simp
  have "\<forall>kc \<in> set (AList.update p (attach_file ?child ?agg ps fm) (children node)).
          slash \<notin> set (fst kc) \<and> plain_names (snd kc)"
    using Cons.prems rec by (auto simp: plain_names_sel[of node] dest!: in_update_cases)
  then show ?case by (simp add: Let_def plain_names_sel[of "FolderNode _ _ _ _"])
qed

lemma build_tree_plain: "plain_names (build_tree fs fi)"
proof -
  have step: "plain_names (build_tree_step fi t rel_path)" if "plain_names t" for t rel_path
  proof -
    have "\<forall>p \<in> set (if folder_of rel_path \<noteq> ''.'' then py_split slash (folder_of rel_path) else []).
            slash \<notin> set p"
      by (auto dest: py_split_no_sep)
    with that show ?thesis by (simp add: build_tree_step_def Let_def attach_file_plain)
  qed
  have "plain_names t \<Longrightarrow> plain_names (foldl (build_tree_step fi) t fs)" for t
    by (induction fs arbitrary: t) (simp_all add: step)
  then show ?thesis by (simp add: build_tree_def)
qed

lemma folder_paths_child:
  assumes "kc \<in> set (children node)"
  shows "path (snd kc) \<in> set (folder_paths node)"
    and "set (folder_paths (snd kc)) \<subseteq> set (folder_paths node)"
  using assms by (auto simp: folder_paths_sel[of node])

lemma attach_file_folder_paths:
  "set (folder_paths (attach_file node agg ps fm))
     \<subseteq> set (folder_paths node) \<union> (\<lambda>pre. py_join (agg @ pre)) ` set (nonempty_prefixes ps)"
proof (induction ps arbitrary: node agg)
  case Nil
  show ?case by (simp add: folder_paths_sel[of node] folder_paths_sel[of "FolderNode _ _ _ _"])
next
  case (Cons p ps)
  let ?agg = "agg @ [p]"
  let ?child = "case map_of (children node) p of
                  None \<Rightarrow> FolderNode (py_join ?agg) p [] [] | Some c \<Rightarrow> c"
  let ?new = "attach_file ?child ?agg ps fm"
  let ?N = "(\<lambda>pre. py_join (agg @ pre)) ` set (nonempty_prefixes (p # ps))"
  have n1: "py_join ?agg \<in> ?N" by simp
  have n2: "(\<lambda>pre. py_join (?agg @ pre)) ` set (nonempty_prefixes ps) \<subseteq> ?N"
    by (auto simp: image_image)
  have child: "path ?child \<in> set (folder_paths node) \<union> ?N
               \<and> set (folder_paths ?child) \<subseteq> set (folder_paths node)"
  proof (cases "map_of (children node) p")
    case None
    with n1 show ?thesis by simp
  next
    case (Some c)
    then have "(p, c) \<in> set (children node)" by (rule map_of_SomeD)
    from folder_paths_child[OF this] Some show ?thesis by simp
  qed
  have pn: "path ?new = path ?child" using attach_file_path_name[of ?child ?agg ps fm] by simp
  from Cons.IH[of ?child ?agg] child n2
  have fp: "set (folder_paths ?new) \<subseteq> set (folder_paths node) \<union> ?N" by blast
  have "set (folder_paths (attach_file node agg (p # ps) fm))
          = (\<Union>kc \<in> set (AList.update p ?new (children node)).
               insert (path (snd kc)) (set (folder_paths (snd kc))))"
    by (simp add: Let_def)
  also have "\<dots> \<subseteq> set (folder_paths node) \<union> ?N"
  proof (rule UN_least)
    fix kc assume "kc \<in> set (AList.update p ?new (children node))"
    then have "kc = (p, ?new) \<or> kc \<in> set (children node)" by (rule in_update_cases)
    then show "insert (path (snd kc)) (set (folder_paths (snd kc))) \<subseteq> set (folder_paths node) \<union> ?N"
    proof
      assume "kc = (p, ?new)"
      with pn child fp show ?thesis by auto
    next
      assume "kc \<in> set (children node)"
      from folder_paths_child[OF this] show ?thesis by auto
    qed
  qed
  finally show ?case .
qed

lemma build_tree_step_folder_paths:
  "set (folder_paths (build_tree_step fi t rel_path))
     \<subseteq> set (folder_paths t) \<union> set (folder_paths_of rel_path)"
proof (cases "folder_of rel_path = ''.''")
  case True
  then show ?thesis
    by (simp add: build_tree_step_def Let_def folder_paths_sel[of t]
        folder_paths_sel[of "FolderNode _ _ _ _"])
next
  case False
  with attach_file_folder_paths[of t "[]" "py_split slash (folder_of rel_path)"]
  show ?thesis by (simp add: build_tree_step_def Let_def folder_paths_of_def)
qed

lemma build_tree_folder_paths:
  "set (folder_paths (build_tree fs fi)) \<subseteq> (\<Union>q \<in> set fs. set (folder_paths_of q))"
proof -
  have "set (folder_paths (foldl (build_tree_step fi) t fs))
          \<subseteq> set (folder_paths t) \<union> (\<Union>q \<in> set fs. set (folder_paths_of q))" for t
  proof (induction fs arbitrary: t)
    case Nil
    show ?case by simp
  next
    case (Cons x fs)
    from Cons.IH[of "build_tree_step fi t x"] build_tree_step_folder_paths[of fi t x]
    show ?case by auto
  qed
  from this[of "FolderNode ''.'' ''root'' [] []"] show ?thesis by (simp add: build_tree_def)
qed

text \<open>
  The run-level statements about pruned subtrees, skipped files and mappings assume that the
  folder and file paths below the root are pairwise distinct. Every tree that \<open>build_tree\<close>
  makes from a scan that lists each file once, and no folder as a file, is such a tree.
\<close>

lemma scan_gives_distinct_paths:
  assumes "scan_ok files_on_disk"
  shows "distinct_paths (build_tree files_on_disk file_index)"
proof -
  let ?t = "build_tree files_on_disk file_index"
  have wr: "well_rooted ?t" by (rule build_tree_well_rooted)
  have ps: "source_path ` set (subtree_files ?t) = set files_on_disk" by (rule build_tree_files)
  have ln: "length (subtree_files ?t) = length files_on_disk" by (rule build_tree_count)
  from assms have d: "distinct files_on_disk"
    and cross: "\<And>p q. p \<in> set files_on_disk \<Longrightarrow> q \<in> set files_on_disk
                  \<Longrightarrow> p \<notin> set (folder_paths_of q)"
    by (simp_all add: scan_ok_def)
  have a: "distinct (folder_paths ?t)"
    by (rule root_folder_paths_distinct[OF wr build_tree_plain])
  have "card (set (map source_path (subtree_files ?t))) = length (map source_path (subtree_files ?t))"
    using ps ln d by (simp add: distinct_card)
  then have b: "distinct (map source_path (subtree_files ?t))" by (rule card_distinct)
  have c: "set (folder_paths ?t) \<inter> source_path ` set (subtree_files ?t) = {}"
  proof (rule ccontr)
    assume "set (folder_paths ?t) \<inter> source_path ` set (subtree_files ?t) \<noteq> {}"
    then obtain p where p: "p \<in> set (folder_paths ?t)" "p \<in> set files_on_disk"
      unfolding ps by blast
    from p(1) build_tree_folder_paths[of files_on_disk file_index]
    obtain q where "q \<in> set files_on_disk" "p \<in> set (folder_paths_of q)" by blast
    with cross[OF p(2)] show False by blast
  qed
  from below_keys_distinct[OF a b c] have "distinct (map item_key (below ?t))" .
  from kids_items_distinct[OF this] show ?thesis
    by (simp add: distinct_paths_def root_items_def initial_state_def kids_def)
qed

lemma course_paths_scan_ok: "scan_ok course_paths"
  by code_simp

section \<open>Extension keys and homogeneity\<close>

lemma py_lower_empty: "py_lower s = [] \<longleftrightarrow> s = []"
  by (simp add: py_lower_def)

text \<open>
  Claim C9, as amended. \<open>compute_folder_stats\<close> sets \<open>is_homogeneous\<close> exactly when the
  files of the subtree have at most one distinct extension key outside the metadata set
  (\<open>.yaml .yml .json .md .txt .toml .ini\<close>). The extension key of a file is the suffix of
  its name, lower-cased, and the key \<open>(no ext)\<close> for a name without a suffix; that key is
  not a metadata extension, so files without a suffix count as content of one kind of
  their own, and suffixes that differ in case only count as one. The metadata extensions
  are left out of the test always, also when they are the only content: a folder that
  holds metadata files only is homogeneous.
\<close>

theorem is_homogeneous_content_extensions:
  "(is_homogeneous (compute_folder_stats node)
      \<longleftrightarrow> card (ext_key ` set (collect_all_files node) - metadata_exts) \<le> 1)
   \<and> ext_key f = (if splitext_ext (file_name f) = [] then ''(no ext)''
                  else py_lower (splitext_ext (file_name f)))
   \<and> ''(no ext)'' \<notin> metadata_exts"
proof -
  have "{e \<in> set (map fst (foldl count_ext [] (collect_all_files node))). e \<notin> metadata_exts}
          = ext_key ` set (collect_all_files node) - metadata_exts"
    using foldl_count_ext_keys[of "[]" "collect_all_files node"] by auto
  then have "is_homogeneous (compute_folder_stats node)
      \<longleftrightarrow> card (ext_key ` set (collect_all_files node) - metadata_exts) \<le> 1"
    by (simp add: compute_folder_stats_def Let_def)
  moreover have "ext_key f = (if splitext_ext (file_name f) = [] then ''(no ext)''
                  else py_lower (splitext_ext (file_name f)))"
    by (simp add: ext_key_def Let_def py_lower_empty)
  moreover have "''(no ext)'' \<notin> metadata_exts"
    by (simp add: metadata_exts_def)
  ultimately show ?thesis by blast
qed

text \<open>
  The theorem at four example folders: PDF files only; metadata files only; two PDF files
  whose suffixes differ in case; a PDF file and a file without a suffix.
\<close>

theorem is_homogeneous_content_extensions_witness:
  "is_homogeneous (compute_folder_stats folder_hw)
   \<and> ext_key ` set (collect_all_files folder_hw) - metadata_exts = {''.pdf''}
   \<and> is_homogeneous (compute_folder_stats folder_docs)
   \<and> ext_key ` set (collect_all_files folder_docs) - metadata_exts = {}
   \<and> is_homogeneous (compute_folder_stats folder_case)
   \<and> ext_key file_upper = ''.pdf''
   \<and> ext_key ` set (collect_all_files folder_case) - metadata_exts = {''.pdf''}
   \<and> \<not> is_homogeneous (compute_folder_stats folder_make)
   \<and> ext_key file_make = ''(no ext)''
   \<and> ext_key ` set (collect_all_files folder_make) - metadata_exts = {''.pdf'', ''(no ext)''}"
proof -
  have a: "ext_key ` set (collect_all_files folder_hw) - metadata_exts = {''.pdf''}"
    by code_simp
  have b: "ext_key ` set (collect_all_files folder_docs) - metadata_exts = {}"
    by code_simp
  have c: "ext_key ` set (collect_all_files folder_case) - metadata_exts = {''.pdf''}"
    by code_simp
  have d: "ext_key ` set (collect_all_files folder_make) - metadata_exts = {''.pdf'', ''(no ext)''}"
    by code_simp
  have u: "splitext_ext (file_name file_upper) = ''.PDF''" by code_simp
  have m: "splitext_ext (file_name file_make) = []" by code_simp
  have l: "py_lower ''.PDF'' = ''.pdf''" by code_simp
  have hw: "is_homogeneous (compute_folder_stats folder_hw)"
    using is_homogeneous_content_extensions[of folder_hw file_a] a by simp
  have docs: "is_homogeneous (compute_folder_stats folder_docs)"
    using is_homogeneous_content_extensions[of folder_docs file_a] b by simp
  have cs: "is_homogeneous (compute_folder_stats folder_case) \<and> ext_key file_upper = ''.pdf''"
    using is_homogeneous_content_extensions[of folder_case file_upper] c u l by simp
  have mk: "\<not> is_homogeneous (compute_folder_stats folder_make) \<and> ext_key file_make = ''(no ext)''"
    using is_homogeneous_content_extensions[of folder_make file_make] d m by simp
  from hw docs cs mk a b c d show ?thesis by blast
qed

text \<open>
  Claim C9 as stated fails on a folder whose only content is a Markdown file and a JSON
  file: counting the metadata extensions there, as the claim's exception asks, gives two
  distinct extensions, and the code reports the folder homogeneous.
\<close>

theorem metadata_only_folder_is_homogeneous:
  "ext_key ` set (collect_all_files folder_docs) = {''.md'', ''.json''}
   \<and> {''.md'', ''.json''} - metadata_exts = {}
   \<and> is_homogeneous (compute_folder_stats folder_docs) = True
   \<and> spec_is_homogeneous {''.md'', ''.json''} = False"
  by code_simp

section \<open>The folders of the tree\<close>

lemma in_update_same: "(k, v) \<in> set (AList.update k v al)"
  by (induction al) auto

lemma in_update_other: "kc \<in> set al \<Longrightarrow> fst kc \<noteq> k \<Longrightarrow> kc \<in> set (AList.update k v al)"
  by (induction al) auto

text \<open>Every folder on the way to the file is in the tree after the file was attached.\<close>

lemma attach_file_makes_folders:
  assumes "distinct (map fst (children node))"
    and "\<forall>kc \<in> set (children node).
           path (snd kc) = py_join (agg @ [fst kc]) \<and> well_placed (snd kc)"
  shows "set (folder_paths node) \<union> (\<lambda>pre. py_join (agg @ pre)) ` set (nonempty_prefixes ps)
           \<subseteq> set (folder_paths (attach_file node agg ps fm))"
  using assms
proof (induction ps arbitrary: node agg)
  case Nil
  show ?case by (simp add: folder_paths_sel[of node] folder_paths_sel[of "FolderNode _ _ _ _"])
next
  case (Cons p ps)
  let ?agg = "agg @ [p]"
  let ?child = "case map_of (children node) p of
                  None \<Rightarrow> FolderNode (py_join ?agg) p [] [] | Some c \<Rightarrow> c"
  let ?new = "attach_file ?child ?agg ps fm"
  let ?res = "attach_file node agg (p # ps) fm"
  have child: "distinct (map fst (children ?child))
      \<and> (\<forall>kc \<in> set (children ?child).
            path (snd kc) = py_join (?agg @ [fst kc]) \<and> well_placed (snd kc))
      \<and> path ?child = py_join ?agg"
  proof (cases "map_of (children node) p")
    case None
    then show ?thesis by simp
  next
    case (Some c)
    then have "(p, c) \<in> set (children node)" by (rule map_of_SomeD)
    with Cons.prems(2) have c: "path c = py_join ?agg" "well_placed c" by auto
    from c(2) have "distinct (map fst (children c))"
      "\<forall>kc \<in> set (children c). path (snd kc) = path c @ slash # fst kc \<and> well_placed (snd kc)"
      by (simp_all add: well_placed_sel[of c])
    moreover have "py_join (?agg @ [k]) = path c @ slash # k" for k
      using py_join_snoc[of ?agg k] c(1) by simp
    ultimately show ?thesis using Some c(1) by simp
  qed
  have ih: "set (folder_paths ?child) \<union> (\<lambda>pre. py_join (?agg @ pre)) ` set (nonempty_prefixes ps)
              \<subseteq> set (folder_paths ?new)"
    using child by (intro Cons.IH) simp_all
  have pn: "path ?new = py_join ?agg"
    using attach_file_path_name[of ?child ?agg ps fm] child by simp
  have ch: "children ?res = AList.update p ?new (children node)"
    by (simp add: Let_def)
  have new_in: "(p, ?new) \<in> set (children ?res)"
    unfolding ch by (rule in_update_same)
  have from_new: "insert (path ?new) (set (folder_paths ?new)) \<subseteq> set (folder_paths ?res)"
    using folder_paths_child[OF new_in] by simp
  show ?case
  proof (rule Un_least)
    show "set (folder_paths node) \<subseteq> set (folder_paths ?res)"
    proof
      fix x assume "x \<in> set (folder_paths node)"
      then obtain kc where kc: "kc \<in> set (children node)"
        and x: "x = path (snd kc) \<or> x \<in> set (folder_paths (snd kc))"
        by (auto simp: folder_paths_sel[of node])
      show "x \<in> set (folder_paths ?res)"
      proof (cases "fst kc = p")
        case True
        from True have "(p, snd kc) = kc" by (simp add: prod_eq_iff)
        with kc have "(p, snd kc) \<in> set (children node)" by simp
        with Cons.prems(1) have "map_of (children node) p = Some (snd kc)"
          by (rule map_of_is_SomeI)
        then have "?child = snd kc" by simp
        with x pn ih have "x \<in> insert (path ?new) (set (folder_paths ?new))"
          using attach_file_path_name[of ?child ?agg ps fm] by auto
        with from_new show ?thesis by blast
      next
        case False
        with kc have "kc \<in> set (children ?res)" unfolding ch by (rule in_update_other)
        from folder_paths_child[OF this] x show ?thesis by auto
      qed
    qed
  next
    show "(\<lambda>pre. py_join (agg @ pre)) ` set (nonempty_prefixes (p # ps))
            \<subseteq> set (folder_paths ?res)"
    proof
      fix x assume "x \<in> (\<lambda>pre. py_join (agg @ pre)) ` set (nonempty_prefixes (p # ps))"
      then have "x = py_join ?agg
                 \<or> x \<in> (\<lambda>pre. py_join (?agg @ pre)) ` set (nonempty_prefixes ps)"
        by auto
      with pn ih have "x \<in> insert (path ?new) (set (folder_paths ?new))" by auto
      with from_new show "x \<in> set (folder_paths ?res)" by blast
    qed
  qed
qed

lemma build_tree_step_makes_folders:
  assumes "well_rooted t"
  shows "set (folder_paths t) \<union> set (folder_paths_of rel_path)
           \<subseteq> set (folder_paths (build_tree_step fi t rel_path))"
proof (cases "folder_of rel_path = ''.''")
  case True
  then show ?thesis
    by (simp add: build_tree_step_def Let_def folder_paths_of_def folder_paths_sel[of t]
        folder_paths_sel[of "FolderNode _ _ _ _"])
next
  case False
  from assms have "distinct (map fst (children t))"
    "\<forall>kc \<in> set (children t). path (snd kc) = py_join ([] @ [fst kc]) \<and> well_placed (snd kc)"
    by (simp_all add: well_rooted_def)
  from attach_file_makes_folders[OF this, of "py_split slash (folder_of rel_path)"] False
  show ?thesis by (simp add: build_tree_step_def Let_def folder_paths_of_def)
qed

lemma foldl_step_makes_folders:
  "well_rooted t \<Longrightarrow>
     set (folder_paths t) \<union> (\<Union>q \<in> set fs. set (folder_paths_of q))
       \<subseteq> set (folder_paths (foldl (build_tree_step fi) t fs))"
proof (induction fs arbitrary: t)
  case Nil
  show ?case by simp
next
  case (Cons x fs)
  from Cons.IH[OF build_tree_step_well_rooted[OF Cons.prems, of fi x]]
    build_tree_step_makes_folders[OF Cons.prems, of x fi]
  show ?case by auto
qed

lemma build_tree_folders:
  "set (folder_paths (build_tree fs fi)) = (\<Union>q \<in> set fs. set (folder_paths_of q))"
proof
  show "set (folder_paths (build_tree fs fi)) \<subseteq> (\<Union>q \<in> set fs. set (folder_paths_of q))"
    by (rule build_tree_folder_paths)
next
  have "well_rooted (FolderNode ''.'' ''root'' [] [])" by (simp add: well_rooted_def)
  from foldl_step_makes_folders[OF this, of fs fi]
  show "(\<Union>q \<in> set fs. set (folder_paths_of q)) \<subseteq> set (folder_paths (build_tree fs fi))"
    by (simp add: build_tree_def)
qed

text \<open>
  Claim C8, as amended. In the tree that \<open>build_tree\<close> returns for any list of paths, the
  root's path is \<open>.\<close>; the path of a child of the root is the child's name; the path of
  every deeper folder is its parent's path, a slash and its name; the children of every
  folder are keyed by their names, one child per name, and no name contains a slash, so a
  node is one segment of a directory. The folders of the tree are exactly the folders on
  the way to some input file (for each file, one folder for every non-empty prefix of the
  segments of its directory component), each of them once. Every file is attached to the
  folder whose path is the file's directory component (the root for a file without one).
  The files of the tree are the input paths, one file per list entry. The tree is a value
  of an inductive datatype, so it has no cycle.
\<close>

theorem build_tree_shape:
  "well_rooted (build_tree files_on_disk file_index)
   \<and> plain_names (build_tree files_on_disk file_index)
   \<and> set (folder_paths (build_tree files_on_disk file_index))
       = (\<Union>q \<in> set files_on_disk. set (folder_paths_of q))
   \<and> distinct (folder_paths (build_tree files_on_disk file_index))
   \<and> source_path ` set (collect_all_files (build_tree files_on_disk file_index))
       = set files_on_disk
   \<and> length (collect_all_files (build_tree files_on_disk file_index)) = length files_on_disk
   \<and> (\<forall>f \<in> set (collect_all_files (build_tree files_on_disk file_index)).
         folder_path f = folder_of (source_path f) \<and> file_name f = basename (source_path f))"
proof -
  let ?empty = "FolderNode ''.'' ''root'' [] []"
  let ?tree = "build_tree files_on_disk file_index"
  have wr: "well_rooted ?tree" by (rule build_tree_well_rooted)
  have pl: "plain_names ?tree" by (rule build_tree_plain)
  have fo: "set (folder_paths ?tree) = (\<Union>q \<in> set files_on_disk. set (folder_paths_of q))"
    by (rule build_tree_folders)
  have di: "distinct (folder_paths ?tree)" by (rule root_folder_paths_distinct[OF wr pl])
  have a: "source_path ` set (collect_all_files ?tree) = set files_on_disk"
    by (simp add: collect_all_files_set build_tree_files)
  have b: "length (collect_all_files ?tree) = length files_on_disk"
    by (simp add: collect_all_files_length build_tree_count)
  have "\<forall>f \<in> set (subtree_files ?empty).
         folder_path f = folder_of (source_path f) \<and> file_name f = basename (source_path f)"
    by simp
  then have "\<forall>f \<in> set (subtree_files (foldl (build_tree_step file_index) ?empty files_on_disk)).
         folder_path f = folder_of (source_path f) \<and> file_name f = basename (source_path f)"
    by (rule foldl_step_components)
  then have c: "\<forall>f \<in> set (collect_all_files ?tree).
         folder_path f = folder_of (source_path f) \<and> file_name f = basename (source_path f)"
    by (simp only: build_tree_def collect_all_files_set)
  from wr pl fo di a b c show ?thesis by (intro conjI)
qed

text \<open>
  The theorem at the example course, whose tree has a top-level folder, a nested folder
  and files at three depths; and at a scan of one file two folders deep, where the upper
  folder holds no file of its own.
\<close>

theorem build_tree_shape_witness:
  "build_tree course_paths [] = course_tree
   \<and> path course_tree = ''.''
   \<and> (''hw'', folder_hw) \<in> set (children course_tree)
   \<and> path folder_hw = ''hw'' \<and> name folder_hw = ''hw''
   \<and> (''sol'', folder_sol) \<in> set (children folder_hw)
   \<and> path folder_sol = path folder_hw @ ''/'' @ name folder_sol
   \<and> file_b \<in> set (files folder_sol) \<and> folder_path file_b = path folder_sol
   \<and> folder_path file_b = folder_of (source_path file_b)
   \<and> source_path ` set (collect_all_files course_tree) = set course_paths
   \<and> set (folder_paths course_tree) = {''hw'', ''hw/sol'', ''notes''}
   \<and> distinct (folder_paths course_tree)
   \<and> build_tree [''hw/sol/b.pdf''] []
       = FolderNode ''.'' ''root'' [] [(''hw'', FolderNode ''hw'' ''hw'' [] [(''sol'', folder_sol)])]
   \<and> folder_paths_of ''hw/sol/b.pdf'' = [''hw'', ''hw/sol'']
   \<and> set (folder_paths (build_tree [''hw/sol/b.pdf''] [])) = {''hw'', ''hw/sol''}"
proof -
  note sh = build_tree_shape[of course_paths "[]", unfolded course_tree_built]
  note sh1 = build_tree_shape[of "[''hw/sol/b.pdf'']" "[]"]
  from sh have wr: "well_rooted course_tree" by (rule conjunct1)
  have k1: "(''hw'', folder_hw) \<in> set (children course_tree)" by (simp add: course_tree_def)
  have k2: "(''sol'', folder_sol) \<in> set (children folder_hw)" by (simp add: folder_hw_def)
  have k3: "file_b \<in> set (files folder_sol)" by (simp add: folder_sol_def)
  from wr k1 have hw: "path folder_hw = ''hw''" "name folder_hw = ''hw''" "well_placed folder_hw"
    by (auto simp: well_rooted_def)
  from hw(3) k2 have sol: "path folder_sol = path folder_hw @ slash # ''sol''"
      "name folder_sol = ''sol''" "well_placed folder_sol"
    by (auto simp: well_placed_sel[of folder_hw])
  from sol(3) k3 have fb: "folder_path file_b = path folder_sol"
    by (auto simp: well_placed_sel[of folder_sol])
  have fb2: "file_b \<in> set (collect_all_files course_tree)" by code_simp
  with sh have fb3: "folder_path file_b = folder_of (source_path file_b)" by blast
  from wr have p: "path course_tree = ''.''" by (simp add: well_rooted_def)
  from sh have all: "source_path ` set (collect_all_files course_tree) = set course_paths" by blast
  have fp: "(\<Union>q \<in> set course_paths. set (folder_paths_of q)) = {''hw'', ''hw/sol'', ''notes''}"
    by code_simp
  from sh have "set (folder_paths course_tree) = (\<Union>q \<in> set course_paths. set (folder_paths_of q))"
    by blast
  with fp have fs: "set (folder_paths course_tree) = {''hw'', ''hw/sol'', ''notes''}" by simp
  from sh have di: "distinct (folder_paths course_tree)" by blast
  have one: "build_tree [''hw/sol/b.pdf''] []
       = FolderNode ''.'' ''root'' [] [(''hw'', FolderNode ''hw'' ''hw'' [] [(''sol'', folder_sol)])]"
    by code_simp
  have pre: "folder_paths_of ''hw/sol/b.pdf'' = [''hw'', ''hw/sol'']" by code_simp
  from sh1 have "set (folder_paths (build_tree [''hw/sol/b.pdf''] []))
                   = (\<Union>q \<in> set [''hw/sol/b.pdf'']. set (folder_paths_of q))"
    by blast
  with pre have fs1: "set (folder_paths (build_tree [''hw/sol/b.pdf''] [])) = {''hw'', ''hw/sol''}"
    by simp
  from course_tree_built p k1 hw(1,2) k2 sol(1,2) k3 fb fb3 all fs di one pre fs1 show ?thesis
    by (simp add: slash_def)
qed

text \<open>
  Claim C8 as stated fails for the children of the root: the path of the top-level folder
  \<open>hw\<close> is \<open>hw\<close>, not the root's path \<open>.\<close> followed by a slash and the name.
\<close>

theorem top_level_folder_path_is_its_name:
  "build_tree [''hw/a.pdf''] [] = FolderNode ''.'' ''root'' [] [(''hw'', FolderNode ''hw'' ''hw'' [file_a] [])]
   \<and> path (FolderNode ''hw'' ''hw'' [file_a] []) = ''hw''
   \<and> path (FolderNode ''hw'' ''hw'' [file_a] [])
        \<noteq> path (build_tree [''hw/a.pdf''] []) @ ''/'' @ name (FolderNode ''hw'' ''hw'' [file_a] [])"
  by code_simp

section \<open>The answers of the classifier\<close>












end
